theory Spec2Isabelle
  imports Main "HOL-Library.AList"
begin

text \<open>
  The client-side caching and batching layer of the toolkit: the freshness checks of
  the cache accessors, the page iterator (\<open>GraphPageIterator\<close>), the batch
  engine (\<open>Batch\<close>) and the accessors that use them. Asynchronous functions
  are modelled as functions on an explicit state: the mutable object, and a trace of
  what was sent to and received from the outside. Whatever the outside answers is a
  parameter. A rejected promise or a thrown exception is a value of type \<open>error\<close>.
\<close>

section \<open>Cache configuration and the accessors' freshness checks\<close>

text \<open>
  \<open>CacheService.config\<close>: one global switch and default period, and one
  \<open>{ isEnabled, invalidationPeriod }\<close> pair per category. Times are milliseconds
  (\<open>Date.now()\<close>), modelled as integers.
\<close>

record CacheOptions =
  isEnabled :: bool
  invalidationPeriod :: int

record CacheConfig =
  cfg_isEnabled :: bool
  defaultInvalidationPeriod :: int
  photos :: CacheOptions
  groups :: CacheOptions
  users :: CacheOptions
  presence :: CacheOptions
  files :: CacheOptions
  fileLists :: CacheOptions

text \<open>JavaScript \<open>a || b\<close> on numbers: \<open>a\<close> unless it is falsy (zero).\<close>

definition num_or :: "int \<Rightarrow> int \<Rightarrow> int" where
  "num_or a b = (if a \<noteq> 0 then a else b)"

definition getPhotoInvalidationTime :: "CacheConfig \<Rightarrow> int" where
  "getPhotoInvalidationTime cfg = num_or (invalidationPeriod (photos cfg)) (defaultInvalidationPeriod cfg)"

definition getGroupsInvalidationTime :: "CacheConfig \<Rightarrow> int" where
  "getGroupsInvalidationTime cfg = num_or (invalidationPeriod (groups cfg)) (defaultInvalidationPeriod cfg)"

definition getCardStateInvalidationTime :: "CacheConfig \<Rightarrow> int" where
  "getCardStateInvalidationTime cfg = num_or (invalidationPeriod (users cfg)) (defaultInvalidationPeriod cfg)"

definition getPresenceInvalidationTime :: "CacheConfig \<Rightarrow> int" where
  "getPresenceInvalidationTime cfg = num_or (invalidationPeriod (presence cfg)) (defaultInvalidationPeriod cfg)"

definition getFileInvalidationTime :: "CacheConfig \<Rightarrow> int" where
  "getFileInvalidationTime cfg = num_or (invalidationPeriod (files cfg)) (defaultInvalidationPeriod cfg)"

definition getFileListInvalidationTime :: "CacheConfig \<Rightarrow> int" where
  "getFileListInvalidationTime cfg = num_or (invalidationPeriod (fileLists cfg)) (defaultInvalidationPeriod cfg)"

definition getIsPhotosCacheEnabled :: "CacheConfig \<Rightarrow> bool" where
  "getIsPhotosCacheEnabled cfg = (isEnabled (photos cfg) \<and> cfg_isEnabled cfg)"


text \<open>
  The test every accessor writes inline,
  \<open>item && getXInvalidationTime() > Date.now() - item.timeCached\<close>,
  one definition per family of call sites. The argument \<open>item\<close> is the
  \<open>timeCached\<close> stamp of the entry read from the store, \<open>None\<close> when the
  store had none.
\<close>

definition photo_fresh :: "CacheConfig \<Rightarrow> int \<Rightarrow> int option \<Rightarrow> bool" where
  \<comment> \<open>getContactPhoto, getUserPhoto, myPhoto, getGroupImage, getTeamsPhotosForPhotoIds\<close>
  "photo_fresh cfg now item =
     (case item of None \<Rightarrow> False | Some timeCached \<Rightarrow> getPhotoInvalidationTime cfg > now - timeCached)"

definition group_fresh :: "CacheConfig \<Rightarrow> int \<Rightarrow> int option \<Rightarrow> bool" where
  \<comment> \<open>findGroups, findGroupsFromGroup, getGroup, getGroupsForGroupIds\<close>
  "group_fresh cfg now item =
     (case item of None \<Rightarrow> False | Some timeCached \<Rightarrow> getGroupsInvalidationTime cfg > now - timeCached)"

definition cardState_fresh :: "CacheConfig \<Rightarrow> int \<Rightarrow> int option \<Rightarrow> bool" where
  \<comment> \<open>getPersonCardGraphData\<close>
  "cardState_fresh cfg now item =
     (case item of None \<Rightarrow> False | Some timeCached \<Rightarrow> getCardStateInvalidationTime cfg > now - timeCached)"

definition presence_fresh :: "CacheConfig \<Rightarrow> int \<Rightarrow> int option \<Rightarrow> bool" where
  \<comment> \<open>getUserPresence, getUsersPresenceByPeople\<close>
  "presence_fresh cfg now item =
     (case item of None \<Rightarrow> False | Some timeCached \<Rightarrow> getPresenceInvalidationTime cfg > now - timeCached)"

definition file_fresh :: "CacheConfig \<Rightarrow> int \<Rightarrow> int option \<Rightarrow> bool" where
  \<comment> \<open>getFilesByQueries, getFileFromCache\<close>
  "file_fresh cfg now item =
     (case item of None \<Rightarrow> False | Some timeCached \<Rightarrow> getFileInvalidationTime cfg > now - timeCached)"

definition fileList_fresh :: "CacheConfig \<Rightarrow> int \<Rightarrow> int option \<Rightarrow> bool" where
  \<comment> \<open>getFileListFromCache\<close>
  "fileList_fresh cfg now item =
     (case item of None \<Rightarrow> False | Some timeCached \<Rightarrow> getFileListInvalidationTime cfg > now - timeCached)"

section \<open>JavaScript helpers\<close>

text \<open>
  Exceptions are values. \<open>TypeError\<close> is what reading a property of
  \<open>undefined\<close> throws; \<open>Rejected\<close> is any value an external call (the request
  builder, the batch transport) rejects with.
\<close>

datatype error = TypeError | Rejected string

text \<open>Truthiness of an optional string: \<open>undefined\<close>, \<open>null\<close> and \<open>''\<close> are falsy.\<close>

definition truthy_str :: "string option \<Rightarrow> bool" where
  "truthy_str s = (case s of None \<Rightarrow> False | Some x \<Rightarrow> x \<noteq> [])"

text \<open>\<open>a || b\<close> on optional strings.\<close>

definition str_or :: "string option \<Rightarrow> string \<Rightarrow> string" where
  "str_or a b = (case a of None \<Rightarrow> b | Some x \<Rightarrow> if x \<noteq> [] then x else b)"

text \<open>
  \<open>String.prototype.split(sep)\<close>: the pieces between the non-overlapping occurrences
  of \<open>sep\<close>, found left to right; with the empty separator, the characters one by one.
\<close>

function split_go :: "string \<Rightarrow> string \<Rightarrow> string \<Rightarrow> string list" where
  "split_go sep cur [] = [rev cur]"
| "split_go sep cur (c # cs) =
     (if sep \<noteq> [] \<and> take (length sep) (c # cs) = sep
      then rev cur # split_go sep [] (drop (length sep) (c # cs))
      else split_go sep (c # cur) cs)"
  by pat_completeness auto
termination
  by (relation "measure (\<lambda>(sep, cur, s). length s)") auto

definition split :: "string \<Rightarrow> string \<Rightarrow> string list" where
  "split s sep = (if sep = [] then map (\<lambda>c. [c]) s else split_go sep [] s)"

text \<open>Reading an array element: \<open>undefined\<close> (here \<open>None\<close>) out of range.\<close>

definition at_index :: "'a list \<Rightarrow> nat \<Rightarrow> 'a option" where
  "at_index xs i = (if i < length xs then Some (xs ! i) else None)"

section \<open>GraphPageIterator\<close>

text \<open>
  A request as the request builder sends it: the resource path given to \<open>api\<close>
  (\<open>None\<close> when the caller passed \<open>undefined\<close>) and the API version.
\<close>

record page_request =
  resource :: "string option"
  req_version :: string

text \<open>\<open>CollectionResponse<T>\<close>: both fields are optional.\<close>

record 'a CollectionResponse =
  cr_value :: "'a list option"
  odata_nextLink :: "string option"

text \<open>
  The graph the iterator talks to: its default version and its \<open>get\<close>, which answers
  from the log of every request sent so far, the current one last. A request may be
  rejected, and a resolved response may be \<open>null\<close>.
\<close>

record 'a IGraph =
  version :: string
  api_get :: "page_request list \<Rightarrow> error + 'a CollectionResponse option"

record 'a GraphPageIterator =
  it_graph :: "'a IGraph"
  it_value :: "'a list"
  it_nextLink :: "string option"
  it_version :: string

definition value_of :: "'a GraphPageIterator \<Rightarrow> 'a list" where
  "value_of it = it_value it"

definition hasNext :: "'a GraphPageIterator \<Rightarrow> bool" where
  "hasNext it = truthy_str (it_nextLink it)"

definition nextLink :: "'a GraphPageIterator \<Rightarrow> string" where
  "nextLink it = str_or (it_nextLink it) []"

text \<open>
  \<open>create(graph, request, version?)\<close>: sends the first request; \<open>null\<close> when the
  response has no \<open>value\<close>.
\<close>

definition create ::
  "'a IGraph \<Rightarrow> page_request \<Rightarrow> string option \<Rightarrow> page_request list
   \<Rightarrow> (error + 'a GraphPageIterator option) \<times> page_request list" where
  "create graph request ver log =
     (let log' = log @ [request] in
      case api_get graph log' of
        Inl e \<Rightarrow> (Inl e, log')
      | Inr None \<Rightarrow> (Inr None, log')
      | Inr (Some response) \<Rightarrow>
          (case cr_value response of
             None \<Rightarrow> (Inr None, log')
           | Some v \<Rightarrow>
               (Inr (Some \<lparr> it_graph = graph, it_value = v,
                            it_nextLink = odata_nextLink response,
                            it_version = str_or ver (version graph) \<rparr>), log')))"

text \<open>\<open>createFromValue(graph, value, nextLink = null)\<close>: synchronous, sends nothing.\<close>

definition createFromValue ::
  "'a IGraph \<Rightarrow> 'a list \<Rightarrow> string option \<Rightarrow> page_request list
   \<Rightarrow> 'a GraphPageIterator \<times> page_request list" where
  "createFromValue graph v link log =
     (\<lparr> it_graph = graph, it_value = v, it_nextLink = link, it_version = version graph \<rparr>, log)"

text \<open>
  The request \<open>next()\<close> derives from the stored link:
  \<open>this._nextLink.split(this._version)[1]\<close>, sent with the iterator's
  version. It is only built when the link is truthy, where the link and the
  \<open>nextLink\<close> getter are the same string.
\<close>

definition next_request :: "'a GraphPageIterator \<Rightarrow> page_request" where
  "next_request it =
     \<lparr> resource = at_index (split (nextLink it) (it_version it)) 1,
       req_version = it_version it \<rparr>"

text \<open>
  \<open>next()\<close>: the result is the page just fetched, or \<open>null\<close> (\<open>None\<close>); a
  rejected request rejects \<open>next()\<close> and leaves the iterator as it was.
\<close>

definition next_page ::
  "'a GraphPageIterator \<times> page_request list
   \<Rightarrow> (error + 'a list option) \<times> 'a GraphPageIterator \<times> page_request list" where
  "next_page s =
     (let it = fst s; log = snd s in
      if truthy_str (it_nextLink it) then
        (let log' = log @ [next_request it] in
         case api_get (it_graph it) log' of
           Inl e \<Rightarrow> (Inl e, it, log')
         | Inr None \<Rightarrow> (Inr None, it, log')
         | Inr (Some response) \<Rightarrow>
             (case cr_value response of
                None \<Rightarrow> (Inr None, it, log')
              | Some v \<Rightarrow>
                  if v \<noteq> [] then
                    (Inr (Some v),
                     it\<lparr> it_value := it_value it @ v, it_nextLink := odata_nextLink response \<rparr>,
                     log')
                  else (Inr None, it, log')))
      else (Inr None, it, log))"

text \<open>Calling \<open>next()\<close> \<open>n\<close> times in a row, whatever each call returns.\<close>

fun next_times :: "nat \<Rightarrow> 'a GraphPageIterator \<times> page_request list
   \<Rightarrow> 'a GraphPageIterator \<times> page_request list" where
  "next_times 0 s = s"
| "next_times (Suc n) s = next_times n (snd (next_page s))"

text \<open>
  Two servers for concrete runs. \<open>pages_server\<close> answers the first request with
  a page of two items and a continuation link, the second with a last page of one item
  and no link, and anything later with \<open>null\<close>. \<open>empty_page_server\<close> always
  answers with a page of zero items and no continuation link.
\<close>

definition pages_server :: "nat IGraph" where
  "pages_server =
     \<lparr> version = ''v1.0'',
       api_get = (\<lambda>log.
         if length log = 1 then
           Inr (Some \<lparr> cr_value = Some [1, 2],
                       odata_nextLink = Some ''https://graph.microsoft.com/v1.0/me/messages?$skip=2'' \<rparr>)
         else if length log = 2 then Inr (Some \<lparr> cr_value = Some [3], odata_nextLink = None \<rparr>)
         else Inr None) \<rparr>"

definition empty_page_server :: "nat IGraph" where
  "empty_page_server =
     \<lparr> version = ''v1.0'',
       api_get = (\<lambda>log. Inr (Some \<lparr> cr_value = Some [], odata_nextLink = None \<rparr>)) \<rparr>"

definition first_request :: page_request where
  "first_request = \<lparr> resource = Some ''/me/messages'', req_version = ''v1.0'' \<rparr>"

definition skip2_request :: page_request where
  "skip2_request = \<lparr> resource = Some ''/me/messages?$skip=2'', req_version = ''v1.0'' \<rparr>"

definition first_page_iterator :: "nat GraphPageIterator" where
  "first_page_iterator =
     \<lparr> it_graph = pages_server, it_value = [1, 2],
       it_nextLink = Some ''https://graph.microsoft.com/v1.0/me/messages?$skip=2'',
       it_version = ''v1.0'' \<rparr>"

definition stuck_iterator :: "nat GraphPageIterator" where
  "stuck_iterator =
     \<lparr> it_graph = empty_page_server, it_value = [1, 2],
       it_nextLink = Some ''https://graph.microsoft.com/v1.0/me/messages?$skip=2'',
       it_version = ''v1.0'' \<rparr>"

text \<open>The iterator rebuilt from the cached first page and its link.\<close>

definition replayed_iterator :: "nat GraphPageIterator" where
  "replayed_iterator = fst (createFromValue pages_server [1, 2] 
     (Some ''https://graph.microsoft.com/v1.0/me/messages?$skip=2'') [first_request])"

section \<open>Numbers and strings of JavaScript used by the batch engine\<close>

text \<open>
  \<open>Number.prototype.toString()\<close> on a request index (a non-negative integer): its
  decimal digits.
\<close>

definition digit_char :: "nat \<Rightarrow> char" where
  "digit_char d = ''0123456789'' ! d"

fun toString :: "nat \<Rightarrow> string" where
  "toString n = (if n < 10 then [digit_char n] else toString (n div 10) @ [digit_char (n mod 10)])"

declare toString.simps [simp del]

text \<open>
  \<open>parseInt(s, 10)\<close>: leading white space is skipped, then an optional sign, then
  the longest run of decimal digits is read; \<open>NaN\<close> (here \<open>None\<close>) when there is
  no digit. White space is the ASCII part of the language's list.
\<close>

definition digit_of :: "char \<Rightarrow> nat option" where
  "digit_of c =
     map_of [(CHR ''0'', 0), (CHR ''1'', 1), (CHR ''2'', 2), (CHR ''3'', 3), (CHR ''4'', 4),
             (CHR ''5'', 5), (CHR ''6'', 6), (CHR ''7'', 7), (CHR ''8'', 8), (CHR ''9'', 9)] c"

definition is_digit :: "char \<Rightarrow> bool" where
  "is_digit c = (digit_of c \<noteq> None)"

definition is_ws :: "char \<Rightarrow> bool" where
  "is_ws c = (c = CHR '' '' \<or> c = CHR 0x09 \<or> c = CHR 0x0A \<or> c = CHR 0x0B
              \<or> c = CHR 0x0C \<or> c = CHR 0x0D)"

definition digits_value :: "string \<Rightarrow> nat" where
  "digits_value z = foldl (\<lambda>a c. 10 * a + (case digit_of c of None \<Rightarrow> 0 | Some d \<Rightarrow> d)) 0 z"

definition parseInt :: "string \<Rightarrow> int option" where
  "parseInt s =
     (let t = dropWhile is_ws s;
          neg = (case t of [] \<Rightarrow> False | c # r \<Rightarrow> c = CHR ''-'');
          u = (case t of [] \<Rightarrow> [] | c # r \<Rightarrow> if c = CHR ''-'' \<or> c = CHR ''+'' then r else t);
          z = takeWhile is_digit u
      in if z = [] then None
         else Some (if neg then - int (digits_value z) else int (digits_value z)))"

text \<open>\<open>String.prototype.includes(sub)\<close>: \<open>sub\<close> occurs somewhere in the string.\<close>

fun str_includes :: "string \<Rightarrow> string \<Rightarrow> bool" where
  "str_includes [] sub = (sub = [])"
| "str_includes (c # cs) sub = (take (length sub) (c # cs) = sub \<or> str_includes cs sub)"

text \<open>
  The values a response body or a response content can be. Only two things are asked
  of them: whether \<open>typeof\<close> is \<open>'string'\<close>, and whether they are truthy.
\<close>

datatype json = JUndefined | JNull | JBool bool | JNum int | JStr string
  | JArr "json list" | JObj "(string \<times> json) list"

fun truthy :: "json \<Rightarrow> bool" where
  "truthy JUndefined = False"
| "truthy JNull = False"
| "truthy (JBool b) = b"
| "truthy (JNum n) = (n \<noteq> 0)"
| "truthy (JStr s) = (s \<noteq> [])"
| "truthy (JArr xs) = True"
| "truthy (JObj fs) = True"

section \<open>Batch\<close>

type_synonym headers = "(string \<times> string) list"

text \<open>
  \<open>BatchRequest\<close>: one request as \<open>get\<close> recorded it. The classes
  \<open>BatchRequest\<close> and \<open>BatchResponse\<close> and the type of the transport's
  answer are declared outside the sources; their fields here are the ones the engine
  reads and writes.
\<close>

record BatchRequest =
  req_index :: nat
  req_id :: string
  req_resource :: string
  req_method :: string
  req_headers :: "headers option"

text \<open>One entry of the composite body handed to the transport.\<close>

record BatchRequestStep =
  step_id :: string
  step_url :: string
  step_method :: string
  step_headers :: "headers option"

text \<open>One entry of \<open>batchResponse.responses\<close>.\<close>

record SubResponse =
  sr_id :: string
  sr_status :: int
  sr_headers :: headers
  sr_body :: json

text \<open>\<open>BatchResponse\<close>: an entry of the result map; \<open>content\<close> starts undefined.\<close>

record BatchResponse =
  resp_id :: string
  resp_index :: nat
  resp_headers :: headers
  content :: json

text \<open>
  The result map, a JavaScript \<open>Map\<close>, as an association list in insertion order;
  \<open>Map.set\<close> is \<open>AList.update\<close> (replace in place, or append).
\<close>

type_synonym responses = "(string \<times> BatchResponse) list"

record Batch =
  allRequests :: "BatchRequest list"
  requestsQueue :: "nat list"
  scopes :: "string list"
  retryAfter :: int
  nextIndex :: nat

text \<open>
  What the engine does to the outside, in order: it waits (milliseconds), it posts a
  composite body with its middleware options, it receives the sub-responses. Accessors
  add single requests (\<open>Fetch\<close>) and their answers.

  Modelled from the spec: \<open>delay\<close> (imported from \<open>./delay\<close>) is not among the
  sources. By the spec the engine suspends for the retry delay before proceeding; a call
  \<open>await delay(ms)\<close> is the event \<open>Delay ms\<close>, and what follows it in the
  trace happens after the suspension.
\<close>

datatype event =
    Delay int
  | Post "string list list" "BatchRequestStep list"
  | Received "SubResponse list"
  | Fetch string
  | Fetched json

text \<open>
  The graph a batch belongs to. \<open>prepScopes\<close> is the repository's helper that turns
  scopes into middleware options; its code is not among the sources, so it is a
  parameter. \<open>batch_post\<close> is \<open>graph.api('$batch')...post(body)\<close> and
  \<open>api_fetch\<close> is \<open>graph.api(resource)...get()\<close>: each answers from the whole
  trace so far, its own request last, and may reject.
\<close>

record graph_env =
  prepScopes :: "string list \<Rightarrow> string list list"
  batch_post :: "event list \<Rightarrow> error + SubResponse list"
  api_fetch :: "event list \<Rightarrow> error + json"

definition baseUrl :: string where
  "baseUrl = ''https://graph.microsoft.com''"

definition new_Batch :: Batch where
  "new_Batch = \<lparr> allRequests = [], requestsQueue = [], scopes = [], retryAfter = 0, nextIndex = 0 \<rparr>"

definition hasRequests :: "Batch \<Rightarrow> bool" where
  "hasRequests b = (length (requestsQueue b) > 0)"

text \<open>\<open>get(id, resource, scopes?, headers?)\<close>: an array of scopes is truthy even when empty.\<close>

definition get :: "string \<Rightarrow> string \<Rightarrow> string list option \<Rightarrow> headers option \<Rightarrow> Batch \<Rightarrow> Batch" where
  "get ident res scps hdrs b =
     (let index = nextIndex b;
          request = \<lparr> req_index = index, req_id = ident, req_resource = res,
                      req_method = ''GET'', req_headers = hdrs \<rparr>
      in b\<lparr> nextIndex := index + 1,
            allRequests := allRequests b @ [request],
            requestsQueue := requestsQueue b @ [index],
            scopes := (case scps of None \<Rightarrow> scopes b | Some sc \<Rightarrow> scopes b @ sc) \<rparr>)"

text \<open>
  The loop that fills the composite body: \<open>allRequests[i]\<close> for every dequeued
  index; reading \<open>request.index\<close> of a missing entry throws. The class that
  collects the steps, \<open>BatchRequestContent\<close>, belongs to the client library and
  not to the repository; it is taken to accept every list the engine hands it.
\<close>

fun build_steps :: "BatchRequest list \<Rightarrow> nat list \<Rightarrow> error + BatchRequestStep list" where
  "build_steps reqs [] = Inr []"
| "build_steps reqs (i # rest) =
     (case at_index reqs i of
        None \<Rightarrow> Inl TypeError
      | Some request \<Rightarrow>
          (case build_steps reqs rest of
             Inl e \<Rightarrow> Inl e
           | Inr steps \<Rightarrow>
               Inr (\<lparr> step_id = toString (req_index request),
                       step_url = baseUrl @ req_resource request,
                       step_method = req_method request,
                       step_headers = req_headers request \<rparr> # steps)))"

text \<open>\<open>this.allRequests[parseInt(r.id, 10)]\<close>: undefined for \<open>NaN\<close> and out of range.\<close>

definition request_of :: "BatchRequest list \<Rightarrow> string \<Rightarrow> (nat \<times> BatchRequest) option" where
  "request_of reqs rid =
     (case parseInt rid of
        None \<Rightarrow> None
      | Some k \<Rightarrow> if 0 \<le> k \<and> nat k < length reqs then Some (nat k, reqs ! nat k) else None)"

text \<open>\<open>parseInt(r.headers['Retry-After'], 10) || 1\<close>\<close>

definition retry_after_of :: "SubResponse \<Rightarrow> int" where
  "retry_after_of r =
     (case map_of (sr_headers r) ''Retry-After'' of
        None \<Rightarrow> 1
      | Some h \<Rightarrow> (case parseInt h of None \<Rightarrow> 1 | Some v \<Rightarrow> num_or v 1))"

text \<open>
  The content of a sub-response with status 200. A string body is looked at through
  its \<open>Content-Type\<close> header (calling \<open>includes\<close> on a missing header throws);
  for a string body of any other type the content is left as it was, undefined.
\<close>

definition decode_content :: "SubResponse \<Rightarrow> error + json" where
  "decode_content r =
     (case sr_body r of
        JStr body \<Rightarrow>
          (case map_of (sr_headers r) ''Content-Type'' of
             None \<Rightarrow> Inl TypeError
           | Some ct \<Rightarrow>
               if str_includes ct ''image/jpeg'' then Inr (JStr (''data:image/jpeg;base64,'' @ body))
               else if str_includes ct ''image/pjpeg'' then Inr (JStr (''data:image/pjpeg;base64,'' @ body))
               else if str_includes ct ''image/png'' then Inr (JStr (''data:image/png;base64,'' @ body))
               else Inr JUndefined)
      | other \<Rightarrow> Inr other)"

text \<open>The body of the loop over \<open>batchResponse.responses\<close>, for one sub-response.\<close>

definition process_response :: "SubResponse \<Rightarrow> Batch \<Rightarrow> responses \<Rightarrow> error + Batch \<times> responses" where
  "process_response r b m =
     (case request_of (allRequests b) (sr_id r) of
        None \<Rightarrow> Inl TypeError
      | Some (index, request) \<Rightarrow>
          if sr_status r \<noteq> 200 then
            (if sr_status r = 429 then
               Inr (b\<lparr> requestsQueue := index # requestsQueue b,
                        retryAfter := max (retryAfter b) (retry_after_of r) \<rparr>, m)
             else Inr (b, m))
          else
            (case decode_content r of
               Inl e \<Rightarrow> Inl e
             | Inr c \<Rightarrow>
                 Inr (b, AList.update (req_id request)
                           \<lparr> resp_id = req_id request, resp_index = req_index request,
                             resp_headers = sr_headers r, content = c \<rparr> m)))"

text \<open>The loop: an exception ends it, and what was done to the batch before stays done.\<close>

fun process_responses :: "SubResponse list \<Rightarrow> Batch \<Rightarrow> responses \<Rightarrow> (error + responses) \<times> Batch" where
  "process_responses [] b m = (Inr m, b)"
| "process_responses (r # rs) b m =
     (case process_response r b m of
        Inl e \<Rightarrow> (Inl e, b)
      | Inr (b', m') \<Rightarrow> process_responses rs b' m')"

definition executeNext ::
  "graph_env \<Rightarrow> Batch \<times> event list \<Rightarrow> (error + responses) \<times> Batch \<times> event list" where
  "executeNext g s =
     (let b0 = fst s; tr0 = snd s;
          tr1 = (if retryAfter b0 \<noteq> 0 then tr0 @ [Delay (retryAfter b0 * 1000)] else tr0);
          b1 = (if retryAfter b0 \<noteq> 0 then b0\<lparr> retryAfter := 0 \<rparr> else b0)
      in if \<not> hasRequests b1 then (Inr [], b1, tr1)
         else
           (let nextBatch = take 20 (requestsQueue b1);
                b2 = b1\<lparr> requestsQueue := drop 20 (requestsQueue b1) \<rparr>
            in case build_steps (allRequests b2) nextBatch of
                 Inl e \<Rightarrow> (Inl e, b2, tr1)
               | Inr steps \<Rightarrow>
                   (let middlewareOptions = (if scopes b2 \<noteq> [] then prepScopes g (scopes b2) else []);
                        tr2 = tr1 @ [Post middlewareOptions steps]
                    in case batch_post g tr2 of
                         Inl e \<Rightarrow> (Inl e, b2, tr2)
                       | Inr rs \<Rightarrow>
                           (case process_responses rs b2 [] of
                              (out, b3) \<Rightarrow> (out, b3, tr2 @ [Received rs])))))"

text \<open>\<open>for (let [key, value] of r) responses.set(key, value)\<close>\<close>

definition merge :: "responses \<Rightarrow> responses \<Rightarrow> responses" where
  "merge acc r = foldl (\<lambda>m kv. AList.update (fst kv) (snd kv) m) acc r"

text \<open>
  \<open>executeAll()\<close>: the \<open>while (this.hasRequests)\<close> loop, with a bound on the
  number of rounds; \<open>None\<close> means the bound was too small. An exception of a round
  ends the loop.
\<close>

fun executeAll_loop ::
  "nat \<Rightarrow> graph_env \<Rightarrow> responses \<Rightarrow> Batch \<times> event list
   \<Rightarrow> ((error + responses) \<times> Batch \<times> event list) option" where
  "executeAll_loop 0 g acc s = (if hasRequests (fst s) then None else Some (Inr acc, s))"
| "executeAll_loop (Suc n) g acc s =
     (if hasRequests (fst s) then
        (case executeNext g s of
           (Inl e, s') \<Rightarrow> Some (Inl e, s')
         | (Inr r, s') \<Rightarrow> executeAll_loop n g (merge acc r) s')
      else Some (Inr acc, s))"

definition executeAll ::
  "nat \<Rightarrow> graph_env \<Rightarrow> Batch \<times> event list \<Rightarrow> ((error + responses) \<times> Batch \<times> event list) option" where
  "executeAll n g s = executeAll_loop n g [] s"

section \<open>Vocabulary for the properties of the batch engine\<close>

text \<open>
  \<open>answers reqs ident r\<close>: the sub-response \<open>r\<close> has status 200 and its id
  designates a request whose caller id is \<open>ident\<close>.
\<close>

definition answers :: "BatchRequest list \<Rightarrow> string \<Rightarrow> SubResponse \<Rightarrow> bool" where
  "answers reqs ident r =
     (sr_status r = 200 \<and>
      (case request_of reqs (sr_id r) of None \<Rightarrow> False | Some (i, request) \<Rightarrow> req_id request = ident))"

text \<open>The sub-responses received and the bodies posted along a trace, in order.\<close>

fun received :: "event list \<Rightarrow> SubResponse list" where
  "received [] = []"
| "received (Received rs # tr) = rs @ received tr"
| "received (e # tr) = received tr"

fun posts :: "event list \<Rightarrow> BatchRequestStep list list" where
  "posts [] = []"
| "posts (Post mw steps # tr) = steps # posts tr"
| "posts (e # tr) = posts tr"

text \<open>The step the engine sends for a request.\<close>

definition step_of :: "BatchRequest \<Rightarrow> BatchRequestStep" where
  "step_of request =
     \<lparr> step_id = toString (req_index request),
       step_url = baseUrl @ req_resource request,
       step_method = req_method request,
       step_headers = req_headers request \<rparr>"

text \<open>
  The invariant of a batch built by the constructor and \<open>get\<close>: request \<open>i\<close>
  sits at position \<open>i\<close>, and the queue holds positions of \<open>allRequests\<close> only.
\<close>

definition batch_ok :: "Batch \<Rightarrow> bool" where
  "batch_ok b =
     (list_all (\<lambda>i. i < length (allRequests b)) (requestsQueue b)
      \<and> map req_index (allRequests b) = [0 ..< length (allRequests b)])"

text \<open>
  The stages of \<open>executeNext\<close>, named: the batch after the retry delay, the delay
  it made, the batch after the \<open>splice\<close>, and the middleware options of the post.
\<close>

definition after_delay :: "Batch \<Rightarrow> Batch" where
  "after_delay b = (if retryAfter b \<noteq> 0 then b\<lparr> retryAfter := 0 \<rparr> else b)"

definition delay_events :: "Batch \<Rightarrow> event list" where
  "delay_events b = (if retryAfter b \<noteq> 0 then [Delay (retryAfter b * 1000)] else [])"

definition dequeued :: "Batch \<Rightarrow> Batch" where
  "dequeued b = (after_delay b)\<lparr> requestsQueue := drop 20 (requestsQueue b) \<rparr>"

definition middleware_of :: "graph_env \<Rightarrow> Batch \<Rightarrow> string list list" where
  "middleware_of g b = (if scopes b \<noteq> [] then prepScopes g (scopes b) else [])"

text \<open>
  \<open>recorded reqs rs m base\<close>: the map \<open>m\<close> is \<open>base\<close> overwritten by the
  status-200 sub-responses among \<open>rs\<close>. An id that no sub-response of \<open>rs\<close>
  answers is as in \<open>base\<close>; an id answered by one sub-response only has the entry
  decoded from it.
\<close>

definition recorded ::
  "BatchRequest list \<Rightarrow> SubResponse list \<Rightarrow> responses \<Rightarrow> (string \<Rightarrow> BatchResponse option) \<Rightarrow> bool" where
  "recorded reqs rs m base =
     (\<forall>ident.
        ((\<forall>r \<in> set rs. \<not> answers reqs ident r) \<longrightarrow> map_of m ident = base ident)
        \<and> (\<forall>r. r \<in> set rs \<and> answers reqs ident r
               \<and> (\<forall>r' \<in> set rs. answers reqs ident r' \<longrightarrow> r' = r)
             \<longrightarrow> (\<exists>i request c. request_of reqs (sr_id r) = Some (i, request)
                   \<and> decode_content r = Inr c
                   \<and> map_of m ident = Some \<lparr> resp_id = ident, resp_index = req_index request,
                                              resp_headers = sr_headers r, content = c \<rparr>)))"

text \<open>The indices of the status-429 sub-responses that designate a request, in order.\<close>

fun throttled :: "BatchRequest list \<Rightarrow> SubResponse list \<Rightarrow> nat list" where
  "throttled reqs [] = []"
| "throttled reqs (r # rs) =
     (case request_of reqs (sr_id r) of
        None \<Rightarrow> throttled reqs rs
      | Some (i, request) \<Rightarrow>
          if sr_status r = 429 then i # throttled reqs rs else throttled reqs rs)"

text \<open>
  A sub-response the loop can process without an exception: its id designates a
  request of the batch and, with status 200, its content can be decoded.
\<close>

definition well_formed :: "BatchRequest list \<Rightarrow> SubResponse \<Rightarrow> bool" where
  "well_formed reqs r =
     ((case request_of reqs (sr_id r) of None \<Rightarrow> False | Some p \<Rightarrow> True)
      \<and> (if sr_status r = 200 then (case decode_content r of Inl e \<Rightarrow> False | Inr c \<Rightarrow> True)
          else True))"


text \<open>
  A transport that answers every posted step, and nothing else, with status 200 and
  a content that can be decoded.
\<close>

definition all_succeed :: "graph_env \<Rightarrow> bool" where
  "all_succeed g =
     (\<forall>tr mw steps. case batch_post g (tr @ [Post mw steps]) of
              Inl e \<Rightarrow> False
            | Inr rs \<Rightarrow> set (map sr_id rs) = set (map step_id steps)
                \<and> list_all (\<lambda>r. sr_status r = 200
                       \<and> (case decode_content r of Inl e \<Rightarrow> False | Inr c \<Rightarrow> True)) rs)"

text \<open>A sequence of \<open>batch.get(id, resource, scopes?, headers?)\<close> calls.\<close>

type_synonym get_call = "string \<times> string \<times> string list option \<times> headers option"

definition enqueue :: "get_call list \<Rightarrow> Batch \<Rightarrow> Batch" where
  "enqueue calls b = foldl (\<lambda>b c. get (fst c) (fst (snd c)) (fst (snd (snd c))) (snd (snd (snd c))) b) b calls"

section \<open>Concrete batches and transports\<close>

text \<open>
  \<open>echo_server\<close> answers every posted step with status 200 and a JSON body;
  \<open>throttling_server\<close> answers the first post by throttling request 0 (with
  \<open>Retry-After: 2\<close>) and request 1 (without the header), and every later post
  like \<open>echo_server\<close>.
\<close>

definition echo :: "BatchRequestStep \<Rightarrow> SubResponse" where
  "echo s = \<lparr> sr_id = step_id s, sr_status = 200, sr_headers = [],
              sr_body = JObj [(''url'', JStr (step_url s))] \<rparr>"

definition echo_server :: graph_env where
  "echo_server =
     \<lparr> prepScopes = (\<lambda>sc. [take 1 sc]),
       batch_post = (\<lambda>tr. case rev tr of Post mw steps # earlier \<Rightarrow> Inr (map echo steps) | _ \<Rightarrow> Inr []),
       api_fetch = (\<lambda>tr. Inl (Rejected ''offline'')) \<rparr>"

definition throttling_server :: graph_env where
  "throttling_server =
     \<lparr> prepScopes = (\<lambda>sc. [take 1 sc]),
       batch_post = (\<lambda>tr. case rev tr of
           Post mw steps # earlier \<Rightarrow>
             if posts earlier = [] then
               Inr [\<lparr> sr_id = ''0'', sr_status = 429, sr_headers = [(''Retry-After'', ''2'')], sr_body = JNull \<rparr>,
                    \<lparr> sr_id = ''1'', sr_status = 429, sr_headers = [], sr_body = JNull \<rparr>]
             else Inr (map echo steps)
         | _ \<Rightarrow> Inr []),
       api_fetch = (\<lambda>tr. Inl (Rejected ''offline'')) \<rparr>"

definition two_requests :: Batch where
  "two_requests = enqueue [(''a'', ''/users/a'', None, None), (''b'', ''/users/b'', None, None)] new_Batch"





definition not_found_response :: SubResponse where
  "not_found_response =
     \<lparr> sr_id = ''0'', sr_status = 404, sr_headers = [], sr_body = JNull \<rparr>"

definition throttled_response :: SubResponse where
  "throttled_response =
     \<lparr> sr_id = ''0'', sr_status = 429, sr_headers = [(''Retry-After'', ''2'')], sr_body = JNull \<rparr>"

text \<open>\<open>not_found_server\<close> answers step \<open>0\<close> with status 404 and every other step like \<open>echo_server\<close>.\<close>

definition not_found_server :: graph_env where
  "not_found_server =
     \<lparr> prepScopes = (\<lambda>sc. [take 1 sc]),
       batch_post = (\<lambda>tr. case rev tr of
           Post mw steps # earlier \<Rightarrow>
             Inr (map (\<lambda>s. if step_id s = ''0'' then not_found_response else echo s) steps)
         | _ \<Rightarrow> Inr []),
       api_fetch = (\<lambda>tr. Inl (Rejected ''offline'')) \<rparr>"

text \<open>Twenty-five \<open>get\<close> calls with the ids \<open>0\<close> to \<open>24\<close>.\<close>

definition calls25 :: "get_call list" where
  "calls25 = map (\<lambda>k. (toString k, ''/users/'' @ toString k, None, None)) [0 ..< 25]"

section \<open>Photo accessors\<close>

text \<open>
  \<open>CachePhoto\<close>: both fields are optional and may be \<open>null\<close>, so they are
  \<open>json\<close> values. The store keeps the \<open>timeCached\<close> stamp beside the item.
\<close>

record CachePhoto =
  eTag :: json
  photo :: json

text \<open>
  Modelled from the spec: \<open>CacheService\<close> and \<open>CacheStore\<close> are not among the
  sources. By the spec a store is a keyed table, \<open>getValue(key)\<close> gives the item or
  nothing, and \<open>putValue(key, item)\<close> stamps \<open>timeCached\<close> with the time of the
  write; so a store is a map from keys to a stamp and an item.
\<close>

type_synonym photo_store = "string \<Rightarrow> (int \<times> CachePhoto) option"

text \<open>
  The raw transport response \<open>getPhotoForResource\<close> reads: its status, \<open>ok\<close>,
  the \<open>@odata.mediaEtag\<close> property, and the photo as base64 (reading the blob may
  fail).
\<close>

record raw_response =
  raw_status :: int
  raw_ok :: bool
  raw_mediaEtag :: json
  raw_base64 :: "error + string"

text \<open>
  The graph as the accessors use it: single requests with a parsed answer
  (\<open>api_fetch\<close>, from \<open>graph_env\<close>), single requests with a raw answer, and the
  clock \<open>Date.now()\<close>; each one answers from the trace so far.
\<close>

record accessor_env = graph_env +
  api_fetch_raw :: "event list \<Rightarrow> error + raw_response"
  date_now :: "event list \<Rightarrow> int"

text \<open>Reading a property of a parsed response: \<open>undefined\<close> when it is not there.\<close>

definition property :: "json \<Rightarrow> string \<Rightarrow> json" where
  "property v name =
     (case v of
        JObj fs \<Rightarrow> (case map_of fs name of None \<Rightarrow> JUndefined | Some x \<Rightarrow> x)
      | other \<Rightarrow> JUndefined)"

definition currentUserValidPhotoScopes :: "string list" where
  "currentUserValidPhotoScopes =
     [''User.Read'', ''User.ReadWrite'', ''User.ReadBasic.All'', ''User.Read.All'', ''User.ReadWrite.All'']"

text \<open>
  \<open>getPhotoForResource(graph, resource, scopes)\<close>: every exception inside is caught
  and turned into \<open>null\<close> (\<open>None\<close>). The scopes only become middleware options.
\<close>

definition getPhotoForResource ::
  "accessor_env \<Rightarrow> string \<Rightarrow> string list \<Rightarrow> event list \<Rightarrow> CachePhoto option \<times> event list" where
  "getPhotoForResource env res scps tr =
     (let tr1 = tr @ [Fetch (res @ ''/photo/$value'')] in
      case api_fetch_raw env tr1 of
        Inl e \<Rightarrow> (None, tr1)
      | Inr response \<Rightarrow>
          if raw_status response = 404 then (Some \<lparr> eTag = JNull, photo = JNull \<rparr>, tr1)
          else if \<not> raw_ok response then (None, tr1)
          else
            (case raw_base64 response of
               Inl e \<Rightarrow> (None, tr1)
             | Inr blob \<Rightarrow> (Some \<lparr> eTag = raw_mediaEtag response, photo = JStr blob \<rparr>, tr1)))"

text \<open>
  The condition of \<open>myPhoto\<close>'s try block,
  \<open>response && (response['@odata.mediaEtag'] !== photoDetails.eTag || (... === null && photoDetails.eTag === null))\<close>:
  with a truthy response, \<open>photoDetails.eTag\<close> is read, which throws when
  \<open>photoDetails\<close> is \<open>undefined\<close> or \<open>null\<close>.
\<close>

definition etag_changed :: "json \<Rightarrow> CachePhoto option \<Rightarrow> error + bool" where
  "etag_changed response photoDetails =
     (if truthy response then
        (case photoDetails of
           None \<Rightarrow> Inl TypeError
         | Some pd \<Rightarrow>
             Inr (property response ''@odata.mediaEtag'' \<noteq> eTag pd
                  \<or> (property response ''@odata.mediaEtag'' = JNull \<and> eTag pd = JNull)))
      else Inr False)"

text \<open>
  \<open>myPhoto(graph)\<close>. The state is the users store of the photo cache and the
  trace; the result is the photo (a string, \<open>null\<close> or \<open>undefined\<close>).
\<close>

definition myPhoto ::
  "accessor_env \<Rightarrow> CacheConfig \<Rightarrow> photo_store \<times> event list \<Rightarrow> json \<times> photo_store \<times> event list" where
  "myPhoto env cfg s =
     (let cache = fst s; tr = snd s;
          cached = (if getIsPhotosCacheEnabled cfg then cache ''me'' else None)
      in if getIsPhotosCacheEnabled cfg \<and> photo_fresh cfg (date_now env tr) (map_option fst cached)
         then (case cached of Some item \<Rightarrow> (photo (snd item), cache, tr) | None \<Rightarrow> (JNull, cache, tr))
         else
           (let photoDetails = map_option snd cached;
                tr1 = tr @ [Fetch ''me/photo'']
            in case api_fetch env tr1 of
                 Inl e \<Rightarrow> (JNull, cache, tr1)
               | Inr response \<Rightarrow>
                   (let tr2 = tr1 @ [Fetched response] in
                    case etag_changed response photoDetails of
                      Inl e \<Rightarrow> (JNull, cache, tr2)
                    | Inr changed \<Rightarrow>
                        (let kept = (if changed then None else photoDetails);
                             fetched = (case kept of
                                          Some pd \<Rightarrow> (Some pd, tr2)
                                        | None \<Rightarrow> getPhotoForResource env ''me'' currentUserValidPhotoScopes tr2);
                             photoDetails' = fst fetched;
                             tr3 = snd fetched;
                             cache' = (if getIsPhotosCacheEnabled cfg
                                       then cache(''me'' \<mapsto>
                                              (date_now env tr3,
                                               (case photoDetails' of
                                                  Some pd \<Rightarrow> pd
                                                | None \<Rightarrow> \<lparr> eTag = JUndefined, photo = JUndefined \<rparr>)))
                                       else cache)
                         in ((case photoDetails' of Some pd \<Rightarrow> photo pd | None \<Rightarrow> JNull),
                             cache', tr3)))))"

text \<open>A graph whose \<open>me/photo\<close> has an ETag and a photo, and a configuration with the cache switched off.\<close>

definition photo_server :: accessor_env where
  "photo_server =
     \<lparr> prepScopes = (\<lambda>sc. [take 1 sc]),
       batch_post = (\<lambda>tr. Inr []),
       api_fetch = (\<lambda>tr. Inr (JObj [(''@odata.mediaEtag'', JStr ''W/1''), (''width'', JNum 48)])),
       api_fetch_raw = (\<lambda>tr. Inr \<lparr> raw_status = 200, raw_ok = True, raw_mediaEtag = JUndefined,
                                   raw_base64 = Inr ''data:image/jpeg;base64,AAAA'' \<rparr>),
       date_now = (\<lambda>tr. 1000) \<rparr>"

definition cache_off :: CacheConfig where
  "cache_off =
     \<lparr> cfg_isEnabled = False, defaultInvalidationPeriod = 3600000,
       photos = \<lparr> isEnabled = True, invalidationPeriod = 0 \<rparr>,
       groups = \<lparr> isEnabled = True, invalidationPeriod = 0 \<rparr>,
       users = \<lparr> isEnabled = True, invalidationPeriod = 0 \<rparr>,
       presence = \<lparr> isEnabled = True, invalidationPeriod = 0 \<rparr>,
       files = \<lparr> isEnabled = True, invalidationPeriod = 0 \<rparr>,
       fileLists = \<lparr> isEnabled = True, invalidationPeriod = 0 \<rparr> \<rparr>"

section \<open>Accessors that use a batch\<close>



















text \<open>The resources of the single requests of a trace, in order.\<close>

fun fetches :: "event list \<Rightarrow> string list" where
  "fetches [] = []"
| "fetches (Fetch res # tr) = res # fetches tr"
| "fetches (e # tr) = fetches tr"


section \<open>Properties\<close>

subsection \<open>Freshness boundary\<close>

text \<open>
  C9. With \<open>timeCached = T\<close> and effective invalidation period \<open>P\<close> of the
  category, every accessor's check treats the entry as fresh at \<open>T + P - 1\<close> and as
  stale at \<open>T + P + 1\<close>; all call sites use the same strict comparison
  \<open>P > now - T\<close>, so at exactly \<open>T + P\<close> the entry is stale everywhere.
\<close>

theorem ttl_boundary_uniform:
  "photo_fresh cfg (T + getPhotoInvalidationTime cfg - 1) (Some T)
   \<and> \<not> photo_fresh cfg (T + getPhotoInvalidationTime cfg + 1) (Some T)
   \<and> group_fresh cfg (T + getGroupsInvalidationTime cfg - 1) (Some T)
   \<and> \<not> group_fresh cfg (T + getGroupsInvalidationTime cfg + 1) (Some T)
   \<and> cardState_fresh cfg (T + getCardStateInvalidationTime cfg - 1) (Some T)
   \<and> \<not> cardState_fresh cfg (T + getCardStateInvalidationTime cfg + 1) (Some T)
   \<and> presence_fresh cfg (T + getPresenceInvalidationTime cfg - 1) (Some T)
   \<and> \<not> presence_fresh cfg (T + getPresenceInvalidationTime cfg + 1) (Some T)
   \<and> file_fresh cfg (T + getFileInvalidationTime cfg - 1) (Some T)
   \<and> \<not> file_fresh cfg (T + getFileInvalidationTime cfg + 1) (Some T)
   \<and> fileList_fresh cfg (T + getFileListInvalidationTime cfg - 1) (Some T)
   \<and> \<not> fileList_fresh cfg (T + getFileListInvalidationTime cfg + 1) (Some T)
   \<and> photo_fresh cfg now (Some T) = (now - T < getPhotoInvalidationTime cfg)
   \<and> group_fresh cfg now (Some T) = (now - T < getGroupsInvalidationTime cfg)
   \<and> cardState_fresh cfg now (Some T) = (now - T < getCardStateInvalidationTime cfg)
   \<and> presence_fresh cfg now (Some T) = (now - T < getPresenceInvalidationTime cfg)
   \<and> file_fresh cfg now (Some T) = (now - T < getFileInvalidationTime cfg)
   \<and> fileList_fresh cfg now (Some T) = (now - T < getFileListInvalidationTime cfg)"
  by (simp add: photo_fresh_def group_fresh_def cardState_fresh_def presence_fresh_def
      file_fresh_def fileList_fresh_def)

subsection \<open>GraphPageIterator\<close>

lemma hasNext_nextLink: "hasNext it = (nextLink it \<noteq> [])"
  by (simp add: hasNext_def nextLink_def truthy_str_def str_or_def split: option.splits)

lemma next_page_no_link:
  "\<not> hasNext it \<Longrightarrow> next_page (it, log) = (Inr None, it, log)"
  by (simp add: next_page_def hasNext_def)

lemma next_times_no_link:
  "\<not> hasNext it \<Longrightarrow> next_times n (it, log) = (it, log)"
  by (induction n) (simp_all add: next_page_no_link)

lemma next_page_nonempty:
  "hasNext it \<Longrightarrow> api_get (it_graph it) (log @ [next_request it]) = Inr (Some r) \<Longrightarrow>
   cr_value r = Some v \<Longrightarrow> v \<noteq> [] \<Longrightarrow>
   next_page (it, log) =
     (Inr (Some v), it\<lparr> it_value := it_value it @ v, it_nextLink := odata_nextLink r \<rparr>,
      log @ [next_request it])"
  by (simp add: next_page_def hasNext_def Let_def)

lemma next_page_empty:
  "hasNext it \<Longrightarrow> api_get (it_graph it) (log @ [next_request it]) = Inr resp \<Longrightarrow>
   (case resp of None \<Rightarrow> True | Some r \<Rightarrow> cr_value r = None \<or> cr_value r = Some []) \<Longrightarrow>
   next_page (it, log) = (Inr None, it, log @ [next_request it])"
  by (auto simp add: next_page_def hasNext_def Let_def split: option.splits)

lemma next_request_first_page:
  "next_request first_page_iterator = skip2_request"
  by (simp add: next_request_def first_page_iterator_def skip2_request_def nextLink_def
      str_or_def split_def at_index_def)

lemma next_request_stuck:
  "next_request stuck_iterator = skip2_request"
  by (simp add: next_request_def stuck_iterator_def skip2_request_def nextLink_def
      str_or_def split_def at_index_def)

lemma create_pages_server:
  "create pages_server first_request None [] = (Inr (Some first_page_iterator), [first_request])"
  by (simp add: create_def pages_server_def first_page_iterator_def str_or_def)

text \<open>
  C7, as stated, fails: \<open>next()\<close> on an iterator with a stored link, answered by a
  page of zero items and no continuation link, resolves to \<open>null\<close> and leaves the
  stored link in place, so \<open>hasNext\<close> is still true after a most recent page
  response that carried no continuation link.
\<close>

theorem hasNext_empty_page_counterexample:
  "api_get empty_page_server ([] @ [next_request stuck_iterator])
     = Inr (Some \<lparr> cr_value = Some [], odata_nextLink = None \<rparr>)
   \<and> next_page (stuck_iterator, []) = (Inr None, stuck_iterator, [skip2_request])
   \<and> hasNext (fst (snd (next_page (stuck_iterator, []))))"
proof -
  have r: "api_get (it_graph stuck_iterator) ([] @ [next_request stuck_iterator])
     = Inr (Some \<lparr> cr_value = Some [], odata_nextLink = None \<rparr>)"
    by (simp add: stuck_iterator_def empty_page_server_def)
  have h: "hasNext stuck_iterator"
    by (simp add: hasNext_def stuck_iterator_def truthy_str_def)
  have n: "next_page (stuck_iterator, []) = (Inr None, stuck_iterator, [skip2_request])"
    using next_page_empty [OF h r] by (simp add: next_request_stuck)
  have g: "it_graph stuck_iterator = empty_page_server"
    by (simp add: stuck_iterator_def)
  from r h n g show ?thesis by simp
qed

text \<open>
  C7, amended. \<open>hasNext\<close> is false exactly when the stored link is absent or empty.
  \<open>create\<close> stores the first response's continuation link. \<open>next()\<close> replaces
  the stored link only when the fetched page carried at least one item: then
  \<open>hasNext\<close> is false afterwards exactly when that page carried no continuation
  link, and from there on every further \<open>next()\<close> sends nothing and leaves the
  iterator as it is. A page of zero items (or without \<open>value\<close>) leaves the
  iterator, and so \<open>hasNext\<close>, unchanged.
\<close>

theorem hasNext_follows_nonempty_pages:
  "hasNext it = (nextLink it \<noteq> [])
   \<and> (hasNext it \<and> api_get (it_graph it) (log @ [next_request it]) = Inr (Some r)
        \<and> cr_value r = Some v \<and> v \<noteq> []
      \<longrightarrow> hasNext (fst (snd (next_page (it, log)))) = truthy_str (odata_nextLink r)
          \<and> (\<not> truthy_str (odata_nextLink r)
               \<longrightarrow> next_times n (snd (next_page (it, log))) = snd (next_page (it, log))))
   \<and> (hasNext it \<and> api_get (it_graph it) (log @ [next_request it]) = Inr (Some r)
        \<and> (cr_value r = None \<or> cr_value r = Some [])
      \<longrightarrow> fst (snd (next_page (it, log))) = it)
   \<and> (\<not> hasNext it \<longrightarrow> next_times n (it, log) = (it, log))
   \<and> (create g req ver lg = (Inr (Some it0), lg0) \<and> api_get g (lg @ [req]) = Inr (Some r0)
      \<longrightarrow> hasNext it0 = truthy_str (odata_nextLink r0))"
proof -
  have b: "hasNext it \<and> api_get (it_graph it) (log @ [next_request it]) = Inr (Some r)
        \<and> cr_value r = Some v \<and> v \<noteq> []
      \<longrightarrow> hasNext (fst (snd (next_page (it, log)))) = truthy_str (odata_nextLink r)
          \<and> (\<not> truthy_str (odata_nextLink r)
               \<longrightarrow> next_times n (snd (next_page (it, log))) = snd (next_page (it, log)))"
  proof
    assume a: "hasNext it \<and> api_get (it_graph it) (log @ [next_request it]) = Inr (Some r)
        \<and> cr_value r = Some v \<and> v \<noteq> []"
    then have np: "next_page (it, log) =
       (Inr (Some v), it\<lparr> it_value := it_value it @ v, it_nextLink := odata_nextLink r \<rparr>,
        log @ [next_request it])"
      by (simp add: next_page_nonempty)
    have h': "hasNext (it\<lparr> it_value := it_value it @ v, it_nextLink := odata_nextLink r \<rparr>)
        = truthy_str (odata_nextLink r)"
      by (simp add: hasNext_def)
    show "hasNext (fst (snd (next_page (it, log)))) = truthy_str (odata_nextLink r)
          \<and> (\<not> truthy_str (odata_nextLink r)
               \<longrightarrow> next_times n (snd (next_page (it, log))) = snd (next_page (it, log)))"
      using np h' by (simp add: next_times_no_link)
  qed
  have c: "hasNext it \<and> api_get (it_graph it) (log @ [next_request it]) = Inr (Some r)
        \<and> (cr_value r = None \<or> cr_value r = Some [])
      \<longrightarrow> fst (snd (next_page (it, log))) = it"
    using next_page_empty [of it log "Some r"] by auto
  have d: "\<not> hasNext it \<longrightarrow> next_times n (it, log) = (it, log)"
    by (simp add: next_times_no_link)
  have e: "create g req ver lg = (Inr (Some it0), lg0) \<and> api_get g (lg @ [req]) = Inr (Some r0)
      \<longrightarrow> hasNext it0 = truthy_str (odata_nextLink r0)"
    by (auto simp add: create_def Let_def hasNext_def split: option.splits)
  from hasNext_nextLink [of it] b c d e show ?thesis by blast
qed


text \<open>The amended C7 on the two concrete servers.\<close>

theorem hasNext_follows_nonempty_pages_witness:
  "hasNext first_page_iterator
   \<and> \<not> hasNext (fst (snd (next_page (first_page_iterator, [first_request]))))
   \<and> next_times 3 (snd (next_page (first_page_iterator, [first_request])))
       = snd (next_page (first_page_iterator, [first_request]))
   \<and> hasNext stuck_iterator
   \<and> fst (snd (next_page (stuck_iterator, []))) = stuck_iterator
   \<and> create pages_server first_request None [] = (Inr (Some first_page_iterator), [first_request])"
proof -
  have h1: "hasNext first_page_iterator"
    by (simp add: hasNext_def first_page_iterator_def truthy_str_def)
  have r1: "api_get (it_graph first_page_iterator) ([first_request] @ [next_request first_page_iterator])
      = Inr (Some \<lparr> cr_value = Some [3], odata_nextLink = None \<rparr>)"
    by (simp add: first_page_iterator_def pages_server_def)
  have h2: "hasNext stuck_iterator"
    by (simp add: hasNext_def stuck_iterator_def truthy_str_def)
  have r2: "api_get (it_graph stuck_iterator) ([] @ [next_request stuck_iterator])
      = Inr (Some \<lparr> cr_value = Some [], odata_nextLink = None \<rparr>)"
    by (simp add: stuck_iterator_def empty_page_server_def)
  have r0: "api_get pages_server ([] @ [first_request])
      = Inr (Some \<lparr> cr_value = Some [1, 2],
            odata_nextLink = Some ''https://graph.microsoft.com/v1.0/me/messages?$skip=2'' \<rparr>)"
    by (simp add: pages_server_def)
  show ?thesis
    using h1 r1 h2 r2 r0 create_pages_server
      hasNext_follows_nonempty_pages [of first_page_iterator "[first_request]"
        "\<lparr> cr_value = Some [3], odata_nextLink = None \<rparr>" "[3]" 3
        pages_server first_request None "[]" first_page_iterator "[first_request]"
        "\<lparr> cr_value = Some [1, 2],
            odata_nextLink = Some ''https://graph.microsoft.com/v1.0/me/messages?$skip=2'' \<rparr>"]
      hasNext_follows_nonempty_pages [of stuck_iterator "[]"
        "\<lparr> cr_value = Some [], odata_nextLink = None \<rparr>" "[]" 0
        pages_server first_request None "[]" first_page_iterator "[first_request]"
        "\<lparr> cr_value = Some [1, 2],
            odata_nextLink = Some ''https://graph.microsoft.com/v1.0/me/messages?$skip=2'' \<rparr>"]
    by (simp add: truthy_str_def)
qed

text \<open>
  C8. \<open>createFromValue\<close> sends nothing (the request log is unchanged). When
  \<open>create\<close> produced an iterator and a second one is rebuilt by
  \<open>createFromValue\<close> from its value and its link, then \<open>next()\<close> on either,
  given the same server response, returns the same result and leaves the same value,
  \<open>nextLink\<close> and \<open>hasNext\<close>; the two requests are identical when
  \<open>create\<close> was given no version of its own. \<open>next()\<close> on a non-empty
  page appends the page to the value and returns the page alone; it resolves to
  \<open>null\<close> when there is no next link or when the page has zero items.
\<close>

theorem createFromValue_replays_create:
  "snd (createFromValue g V L log) = log
   \<and> (create g req ver log0 = (Inr (Some it1), log1)
       \<and> str_or L [] = nextLink it1
       \<and> it2 = fst (createFromValue g (value_of it1) L log2)
       \<and> api_get g (log1 @ [next_request it1]) = api_get g (log2 @ [next_request it2])
      \<longrightarrow> fst (next_page (it1, log1)) = fst (next_page (it2, log2))
          \<and> value_of (fst (snd (next_page (it1, log1)))) = value_of (fst (snd (next_page (it2, log2))))
          \<and> nextLink (fst (snd (next_page (it1, log1)))) = nextLink (fst (snd (next_page (it2, log2))))
          \<and> hasNext (fst (snd (next_page (it1, log1)))) = hasNext (fst (snd (next_page (it2, log2))))
          \<and> (str_or ver (version g) = version g \<longrightarrow> next_request it1 = next_request it2))
   \<and> (hasNext it \<and> api_get (it_graph it) (lg @ [next_request it]) = Inr (Some r)
        \<and> cr_value r = Some v \<and> v \<noteq> []
      \<longrightarrow> fst (next_page (it, lg)) = Inr (Some v)
          \<and> value_of (fst (snd (next_page (it, lg)))) = value_of it @ v
          \<and> it_nextLink (fst (snd (next_page (it, lg)))) = odata_nextLink r)
   \<and> (\<not> hasNext it \<longrightarrow> next_page (it, lg) = (Inr None, it, lg))
   \<and> (hasNext it \<and> api_get (it_graph it) (lg @ [next_request it]) = Inr (Some r)
        \<and> cr_value r = Some []
      \<longrightarrow> fst (next_page (it, lg)) = Inr None)"
proof -
  have a: "snd (createFromValue g V L log) = log"
    by (simp add: createFromValue_def)
  have b: "create g req ver log0 = (Inr (Some it1), log1)
       \<and> str_or L [] = nextLink it1
       \<and> it2 = fst (createFromValue g (value_of it1) L log2)
       \<and> api_get g (log1 @ [next_request it1]) = api_get g (log2 @ [next_request it2])
      \<longrightarrow> fst (next_page (it1, log1)) = fst (next_page (it2, log2))
          \<and> value_of (fst (snd (next_page (it1, log1)))) = value_of (fst (snd (next_page (it2, log2))))
          \<and> nextLink (fst (snd (next_page (it1, log1)))) = nextLink (fst (snd (next_page (it2, log2))))
          \<and> hasNext (fst (snd (next_page (it1, log1)))) = hasNext (fst (snd (next_page (it2, log2))))
          \<and> (str_or ver (version g) = version g \<longrightarrow> next_request it1 = next_request it2)"
  proof (intro impI, elim conjE)
    assume c: "create g req ver log0 = (Inr (Some it1), log1)"
      and l: "str_or L [] = nextLink it1"
      and i2: "it2 = fst (createFromValue g (value_of it1) L log2)"
      and resp: "api_get g (log1 @ [next_request it1]) = api_get g (log2 @ [next_request it2])"
    from c have g1: "it_graph it1 = g" and v1: "it_version it1 = str_or ver (version g)"
      by (auto simp add: create_def Let_def split: sum.splits option.splits)
    from i2 have g2: "it_graph it2 = g" and v2: "it_version it2 = version g"
      and val2: "it_value it2 = it_value it1" and l2: "it_nextLink it2 = L"
      by (simp_all add: createFromValue_def value_of_def)
    have nl: "nextLink it2 = nextLink it1"
      using l l2 by (simp add: nextLink_def)
    have tr: "truthy_str (it_nextLink it2) = truthy_str (it_nextLink it1)"
      using nl hasNext_nextLink [of it1] hasNext_nextLink [of it2] by (simp add: hasNext_def)
    show "fst (next_page (it1, log1)) = fst (next_page (it2, log2))
          \<and> value_of (fst (snd (next_page (it1, log1)))) = value_of (fst (snd (next_page (it2, log2))))
          \<and> nextLink (fst (snd (next_page (it1, log1)))) = nextLink (fst (snd (next_page (it2, log2))))
          \<and> hasNext (fst (snd (next_page (it1, log1)))) = hasNext (fst (snd (next_page (it2, log2))))
          \<and> (str_or ver (version g) = version g \<longrightarrow> next_request it1 = next_request it2)"
      using g1 g2 v1 v2 val2 nl tr resp hasNext_nextLink [of it1] hasNext_nextLink [of it2]
      by (auto simp add: next_page_def Let_def value_of_def nextLink_def hasNext_def next_request_def
          split: sum.splits option.splits)
  qed
  have c: "hasNext it \<and> api_get (it_graph it) (lg @ [next_request it]) = Inr (Some r)
        \<and> cr_value r = Some v \<and> v \<noteq> []
      \<longrightarrow> fst (next_page (it, lg)) = Inr (Some v)
          \<and> value_of (fst (snd (next_page (it, lg)))) = value_of it @ v
          \<and> it_nextLink (fst (snd (next_page (it, lg)))) = odata_nextLink r"
    by (simp add: next_page_nonempty value_of_def)
  have d: "\<not> hasNext it \<longrightarrow> next_page (it, lg) = (Inr None, it, lg)"
    by (simp add: next_page_no_link)
  have e: "hasNext it \<and> api_get (it_graph it) (lg @ [next_request it]) = Inr (Some r)
        \<and> cr_value r = Some []
      \<longrightarrow> fst (next_page (it, lg)) = Inr None"
    using next_page_empty [of it lg "Some r"] by auto
  from a b c d e show ?thesis by blast
qed


text \<open>C8 on \<open>pages_server\<close>: live and replayed iterators after one \<open>next()\<close>.\<close>

theorem createFromValue_replays_create_witness:
  "create pages_server first_request None [] = (Inr (Some first_page_iterator), [first_request])
   \<and> snd (createFromValue pages_server [1, 2]
          (Some ''https://graph.microsoft.com/v1.0/me/messages?$skip=2'') [first_request]) = [first_request]
   \<and> fst (next_page (first_page_iterator, [first_request])) = Inr (Some [3])
   \<and> fst (next_page (replayed_iterator, [first_request])) = Inr (Some [3])
   \<and> value_of (fst (snd (next_page (replayed_iterator, [first_request])))) = [1, 2, 3]
   \<and> value_of (fst (snd (next_page (first_page_iterator, [first_request])))) = [1, 2, 3]
   \<and> nextLink (fst (snd (next_page (replayed_iterator, [first_request])))) = []
   \<and> \<not> hasNext (fst (snd (next_page (replayed_iterator, [first_request]))))
   \<and> next_request first_page_iterator = next_request replayed_iterator
   \<and> next_page (snd (next_page (first_page_iterator, [first_request])))
       = (Inr None, snd (next_page (first_page_iterator, [first_request])))
   \<and> fst (next_page (stuck_iterator, [])) = Inr None"
proof -
  have h1: "hasNext first_page_iterator"
    by (simp add: hasNext_def first_page_iterator_def truthy_str_def)
  have r1: "api_get (it_graph first_page_iterator) ([first_request] @ [next_request first_page_iterator])
      = Inr (Some \<lparr> cr_value = Some [3], odata_nextLink = None \<rparr>)"
    by (simp add: first_page_iterator_def pages_server_def)
  have np: "next_page (first_page_iterator, [first_request]) =
     (Inr (Some [3]), first_page_iterator\<lparr> it_value := it_value first_page_iterator @ [3],
         it_nextLink := None \<rparr>, [first_request] @ [next_request first_page_iterator])"
    using next_page_nonempty [OF h1 r1, of "[3]"] by simp
  have h3: "\<not> hasNext (first_page_iterator\<lparr> it_value := it_value first_page_iterator @ [3],
         it_nextLink := None \<rparr>)"
    by (simp add: hasNext_def truthy_str_def)
  have n3: "nextLink (first_page_iterator\<lparr> it_value := it_value first_page_iterator @ [3],
         it_nextLink := None \<rparr>) = []"
    by (simp add: nextLink_def str_or_def)
  have h2: "hasNext stuck_iterator"
    by (simp add: hasNext_def stuck_iterator_def truthy_str_def)
  have r2: "api_get (it_graph stuck_iterator) ([] @ [next_request stuck_iterator])
      = Inr (Some \<lparr> cr_value = Some [], odata_nextLink = None \<rparr>)"
    by (simp add: stuck_iterator_def empty_page_server_def)
  have rp: "replayed_iterator = first_page_iterator"
    by (simp add: replayed_iterator_def createFromValue_def first_page_iterator_def pages_server_def)
  have nl: "nextLink first_page_iterator = ''https://graph.microsoft.com/v1.0/me/messages?$skip=2''"
    by (simp add: nextLink_def first_page_iterator_def str_or_def)
  have v1: "value_of first_page_iterator = [1, 2]"
    by (simp add: value_of_def first_page_iterator_def)
  note t1 = createFromValue_replays_create [where g = pages_server and V = "[1, 2]"
      and L = "Some ''https://graph.microsoft.com/v1.0/me/messages?$skip=2''"
      and log = "[first_request]" and req = first_request and ver = None and ?log0.0 = "[]"
      and ?it1.0 = first_page_iterator and ?log1.0 = "[first_request]"
      and ?it2.0 = replayed_iterator and ?log2.0 = "[first_request]"
      and it = first_page_iterator and lg = "[first_request]"
      and r = "\<lparr> cr_value = Some [3], odata_nextLink = None \<rparr>" and v = "[3]"]
  note t2 = createFromValue_replays_create [where g = pages_server and V = "[1, 2]"
      and L = "Some ''https://graph.microsoft.com/v1.0/me/messages?$skip=2''"
      and log = "[first_request]" and req = first_request and ver = None and ?log0.0 = "[]"
      and ?it1.0 = first_page_iterator and ?log1.0 = "[first_request]"
      and ?it2.0 = replayed_iterator and ?log2.0 = "[first_request]"
      and it = stuck_iterator and lg = "[]"
      and r = "\<lparr> cr_value = Some [], odata_nextLink = None \<rparr>" and v = "[]"]
  note t3 = createFromValue_replays_create [where g = pages_server and V = "[1, 2]"
      and L = "Some ''https://graph.microsoft.com/v1.0/me/messages?$skip=2''"
      and log = "[first_request]" and req = first_request and ver = None and ?log0.0 = "[]"
      and ?it1.0 = first_page_iterator and ?log1.0 = "[first_request]"
      and ?it2.0 = replayed_iterator and ?log2.0 = "[first_request]"
      and it = "first_page_iterator\<lparr> it_value := it_value first_page_iterator @ [3],
         it_nextLink := None \<rparr>" and lg = "[first_request] @ [next_request first_page_iterator]"
      and r = "\<lparr> cr_value = Some [], odata_nextLink = None \<rparr>" and v = "[]"]
  show ?thesis
    using t1 t2 t3 h1 r1 np h3 n3 h2 r2 rp nl v1 create_pages_server
    by (simp add: str_or_def replayed_iterator_def [symmetric])
qed

subsection \<open>Request ids survive the round trip through the composite body\<close>

lemma digit_of_digit_char: "d < 10 \<Longrightarrow> digit_of (digit_char d) = Some d"
proof -
  assume "d < 10"
  then have "d \<in> {0,1,2,3,4,5,6,7,8,9}" by auto
  then show ?thesis
    by (auto simp add: digit_of_def digit_char_def)
qed

lemma is_digit_digit_char: "d < 10 \<Longrightarrow> is_digit (digit_char d)"
  by (simp add: is_digit_def digit_of_digit_char)

lemma not_ws_digit: "is_digit c \<Longrightarrow> \<not> is_ws c \<and> c \<noteq> CHR ''-'' \<and> c \<noteq> CHR ''+''"
  by (auto simp add: is_digit_def is_ws_def digit_of_def split: if_splits)

lemma toString_digits: "\<forall>c \<in> set (toString n). is_digit c"
proof (induction n rule: toString.induct)
  case (1 n)
  show ?case
  proof (cases "n < 10")
    case True
    then show ?thesis by (subst toString.simps) (simp add: is_digit_digit_char)
  next
    case False
    then have "\<forall>c \<in> set (toString (n div 10)). is_digit c" using 1 by simp
    moreover have "is_digit (digit_char (n mod 10))" by (simp add: is_digit_digit_char)
    ultimately show ?thesis using False by (subst toString.simps) simp
  qed
qed

lemma toString_nonempty: "toString n \<noteq> []"
  by (subst toString.simps) simp

lemma digits_value_snoc:
  "digits_value (z @ [c]) = 10 * digits_value z + (case digit_of c of None \<Rightarrow> 0 | Some d \<Rightarrow> d)"
  by (simp add: digits_value_def)

lemma digits_value_toString: "digits_value (toString n) = n"
proof (induction n rule: toString.induct)
  case (1 n)
  show ?case
  proof (cases "n < 10")
    case True
    then show ?thesis
      by (subst toString.simps) (simp add: digits_value_def digit_of_digit_char)
  next
    case False
    then have "digits_value (toString (n div 10)) = n div 10" using 1 by simp
    then show ?thesis using False
      by (subst toString.simps) (simp add: digits_value_snoc digit_of_digit_char)
  qed
qed

lemma parseInt_toString: "parseInt (toString n) = Some (int n)"
proof -
  obtain c cs where cs: "toString n = c # cs"
    using toString_nonempty [of n] by (cases "toString n") auto
  have dig: "\<forall>x \<in> set (c # cs). is_digit x"
    using toString_digits [of n] cs by simp
  then have c: "\<not> is_ws c" "c \<noteq> CHR ''-''" "c \<noteq> CHR ''+''"
    using not_ws_digit [of c] by auto
  have tw: "takeWhile is_digit (c # cs) = c # cs"
    using dig by (simp add: takeWhile_eq_all_conv)
  have "parseInt (c # cs) = Some (int (digits_value (c # cs)))"
    unfolding parseInt_def Let_def using c tw by simp
  then show ?thesis using cs digits_value_toString [of n] by simp
qed

subsection \<open>What a round and a whole run leave in the result map\<close>

lemma received_append [simp]: "received (tr @ tr') = received tr @ received tr'"
  by (induction tr rule: received.induct) simp_all

lemma posts_append [simp]: "posts (tr @ tr') = posts tr @ posts tr'"
  by (induction tr rule: posts.induct) simp_all

lemma process_response_allRequests:
  "process_response r b m = Inr (b', m') \<Longrightarrow> allRequests b' = allRequests b"
  by (auto simp add: process_response_def split: option.splits if_splits sum.splits)

lemma process_responses_allRequests:
  "process_responses rs b m = (out, b') \<Longrightarrow> allRequests b' = allRequests b"
proof (induction rs arbitrary: b m)
  case Nil
  then show ?case by simp
next
  case (Cons r rs)
  show ?case
  proof (cases "process_response r b m")
    case (Inl e)
    with Cons.prems show ?thesis by simp
  next
    case (Inr p)
    obtain b1 m1 where p: "p = (b1, m1)" by (cases p)
    with Inr Cons.prems have "process_responses rs b1 m1 = (out, b')" by simp
    then have "allRequests b' = allRequests b1" by (rule Cons.IH)
    with Inr p show ?thesis using process_response_allRequests by metis
  qed
qed

lemma process_response_absent:
  "process_response r b m = Inr (b', m') \<Longrightarrow> \<not> answers (allRequests b) ident r \<Longrightarrow>
   map_of m' ident = map_of m ident"
  by (auto simp add: process_response_def answers_def update_conv'
      split: option.splits if_splits sum.splits)

lemma process_responses_absent:
  "process_responses rs b m = (Inr m', b') \<Longrightarrow>
   \<forall>r \<in> set rs. \<not> answers (allRequests b) ident r \<Longrightarrow>
   map_of m' ident = map_of m ident"
proof (induction rs arbitrary: b m)
  case Nil
  then show ?case by simp
next
  case (Cons r rs)
  show ?case
  proof (cases "process_response r b m")
    case (Inl e)
    with Cons.prems show ?thesis by simp
  next
    case (Inr p)
    obtain b1 m1 where p: "p = (b1, m1)" by (cases p)
    have a: "allRequests b1 = allRequests b"
      using Inr p process_response_allRequests by metis
    from Inr p Cons.prems have rest: "process_responses rs b1 m1 = (Inr m', b')" by simp
    have "map_of m' ident = map_of m1 ident"
      using Cons.IH [OF rest] Cons.prems(2) a by simp
    moreover have "map_of m1 ident = map_of m ident"
      using process_response_absent [of r b m b1 m1 ident] Inr p Cons.prems(2) by simp
    ultimately show ?thesis by simp
  qed
qed

text \<open>The entry a status-200 sub-response leaves in the map.\<close>

lemma process_response_present:
  "process_response r b m = Inr (b', m') \<Longrightarrow> answers (allRequests b) ident r \<Longrightarrow>
   \<exists>i request c. request_of (allRequests b) (sr_id r) = Some (i, request)
      \<and> decode_content r = Inr c
      \<and> map_of m' ident = Some \<lparr> resp_id = ident, resp_index = req_index request,
                                   resp_headers = sr_headers r, content = c \<rparr>"
  by (auto simp add: process_response_def answers_def update_conv'
      split: option.splits if_splits sum.splits)

lemma process_responses_present:
  "process_responses rs b m = (Inr m', b') \<Longrightarrow> r \<in> set rs \<Longrightarrow>
   answers (allRequests b) ident r \<Longrightarrow>
   \<forall>r' \<in> set rs. answers (allRequests b) ident r' \<longrightarrow> r' = r \<Longrightarrow>
   \<exists>i request c. request_of (allRequests b) (sr_id r) = Some (i, request)
      \<and> decode_content r = Inr c
      \<and> map_of m' ident = Some \<lparr> resp_id = ident, resp_index = req_index request,
                                   resp_headers = sr_headers r, content = c \<rparr>"
proof (induction rs arbitrary: b m)
  case Nil
  then show ?case by simp
next
  case (Cons x rs)
  show ?case
  proof (cases "process_response x b m")
    case (Inl e)
    with Cons.prems show ?thesis by simp
  next
    case (Inr p)
    obtain b1 m1 where p: "p = (b1, m1)" by (cases p)
    have a: "allRequests b1 = allRequests b"
      using Inr p process_response_allRequests by metis
    from Inr p Cons.prems have rest: "process_responses rs b1 m1 = (Inr m', b')" by simp
    show ?thesis
    proof (cases "r \<in> set rs")
      case True
      show ?thesis
        using Cons.IH [OF rest True] Cons.prems(3,4) a by simp
    next
      case False
      with Cons.prems(2) have xr: "x = r" by simp
      have none: "\<forall>r' \<in> set rs. \<not> answers (allRequests b1) ident r'"
        using Cons.prems(4) False a by auto
      have "map_of m' ident = map_of m1 ident"
        using process_responses_absent [OF rest none] .
      then show ?thesis
        using process_response_present [of r b m b1 m1 ident] Inr p xr Cons.prems(3) by simp
    qed
  qed
qed

lemma process_response_distinct:
  "process_response r b m = Inr (b', m') \<Longrightarrow> distinct (map fst m) \<Longrightarrow> distinct (map fst m')"
  by (auto simp add: process_response_def distinct_update
      split: option.splits if_splits sum.splits)

lemma process_responses_distinct:
  "process_responses rs b m = (Inr m', b') \<Longrightarrow> distinct (map fst m) \<Longrightarrow> distinct (map fst m')"
proof (induction rs arbitrary: b m)
  case Nil
  then show ?case by simp
next
  case (Cons r rs)
  show ?case
  proof (cases "process_response r b m")
    case (Inl e)
    with Cons.prems show ?thesis by simp
  next
    case (Inr p)
    obtain b1 m1 where p: "p = (b1, m1)" by (cases p)
    from Inr p Cons.prems have rest: "process_responses rs b1 m1 = (Inr m', b')" by simp
    have "distinct (map fst m1)"
      using process_response_distinct Inr p Cons.prems(2) by metis
    then show ?thesis using Cons.IH [OF rest] by simp
  qed
qed

lemma map_of_merge:
  "distinct (map fst r) \<Longrightarrow> map_of (merge acc r) = map_of acc ++ map_of r"
proof (induction r arbitrary: acc)
  case Nil
  then show ?case by (simp add: merge_def)
next
  case (Cons kv r)
  obtain k v where kv: "kv = (k, v)" by (cases kv)
  have d: "distinct (map fst r)" and nk: "k \<notin> fst ` set r"
    using Cons.prems kv by auto
  have "merge acc (kv # r) = merge (AList.update k v acc) r"
    by (simp add: merge_def kv)
  then have "map_of (merge acc (kv # r)) = (map_of acc)(k \<mapsto> v) ++ map_of r"
    using Cons.IH [OF d, of "AList.update k v acc"] by (simp only: update_conv')
  moreover have "map_of r k = None"
    using nk by (simp add: map_of_eq_None_iff)
  ultimately show ?case
    using kv by (auto simp add: map_add_def fun_eq_iff split: option.splits)
qed

lemma distinct_merge:
  "distinct (map fst acc) \<Longrightarrow> distinct (map fst (merge acc r))"
proof (induction r arbitrary: acc)
  case Nil
  then show ?case by (simp add: merge_def)
next
  case (Cons kv r)
  have "merge acc (kv # r) = merge (AList.update (fst kv) (snd kv) acc) r"
    by (simp add: merge_def)
  then show ?case using Cons by (simp add: distinct_update)
qed


lemma after_delay_simps [simp]:
  "allRequests (after_delay b) = allRequests b"
  "requestsQueue (after_delay b) = requestsQueue b"
  "scopes (after_delay b) = scopes b"
  "retryAfter (after_delay b) = 0"
  "nextIndex (after_delay b) = nextIndex b"
  by (simp_all add: after_delay_def)

lemma dequeued_simps [simp]:
  "allRequests (dequeued b) = allRequests b"
  "requestsQueue (dequeued b) = drop 20 (requestsQueue b)"
  "scopes (dequeued b) = scopes b"
  "retryAfter (dequeued b) = 0"
  "nextIndex (dequeued b) = nextIndex b"
  by (simp_all add: dequeued_def)

lemma received_delay_events [simp]: "received (delay_events b) = []"
  by (simp add: delay_events_def)

lemma posts_delay_events [simp]: "posts (delay_events b) = []"
  by (simp add: delay_events_def)

text \<open>\<open>executeNext\<close> written with the named stages.\<close>

lemma executeNext_unfold:
  "executeNext g (b, tr) =
     (if requestsQueue b = [] then (Inr [], after_delay b, tr @ delay_events b)
      else
        (case build_steps (allRequests b) (take 20 (requestsQueue b)) of
           Inl e \<Rightarrow> (Inl e, dequeued b, tr @ delay_events b)
         | Inr steps \<Rightarrow>
             (case batch_post g (tr @ delay_events b @ [Post (middleware_of g b) steps]) of
                Inl e \<Rightarrow> (Inl e, dequeued b, tr @ delay_events b @ [Post (middleware_of g b) steps])
              | Inr rs \<Rightarrow>
                  (case process_responses rs (dequeued b) [] of
                     (out, b3) \<Rightarrow>
                       (out, b3, tr @ delay_events b @ [Post (middleware_of g b) steps, Received rs])))))"
  by (simp add: executeNext_def Let_def hasRequests_def after_delay_def delay_events_def
      dequeued_def middleware_of_def split: sum.splits prod.splits)

text \<open>
  A round that returns normally either found the queue empty, or posted once and
  processed the answer without an exception.
\<close>

lemma executeNext_cases:
  assumes "executeNext g (b, tr) = (Inr m, b', tr')"
  shows "\<exists>rs b2. received tr' = received tr @ rs
           \<and> allRequests b2 = allRequests b
           \<and> process_responses rs b2 [] = (Inr m, b')"
proof (cases "requestsQueue b = []")
  case True
  then have "m = [] \<and> received tr' = received tr \<and> allRequests b' = allRequests b"
    using assms by (auto simp add: executeNext_unfold)
  then show ?thesis
    by (intro exI [of _ "[]"] exI [of _ b']) simp
next
  case False
  obtain steps where st: "build_steps (allRequests b) (take 20 (requestsQueue b)) = Inr steps"
    using assms False
    by (cases "build_steps (allRequests b) (take 20 (requestsQueue b))")
      (auto simp add: executeNext_unfold)
  obtain rs where po: "batch_post g (tr @ delay_events b @ [Post (middleware_of g b) steps]) = Inr rs"
    using assms False st
    by (cases "batch_post g (tr @ delay_events b @ [Post (middleware_of g b) steps])")
      (auto simp add: executeNext_unfold)
  obtain out b3 where pp: "process_responses rs (dequeued b) [] = (out, b3)"
    by (cases "process_responses rs (dequeued b) []")
  have pr: "process_responses rs (dequeued b) [] = (Inr m, b')"
    and t: "tr' = tr @ delay_events b @ [Post (middleware_of g b) steps, Received rs]"
    using assms False st po pp by (auto simp add: executeNext_unfold)
  have "received tr' = received tr @ rs" using t by simp
  with pr show ?thesis
    by (intro exI [of _ rs] exI [of _ "dequeued b"]) simp
qed

lemma executeNext_allRequests:
  "executeNext g (b, tr) = (out, b', tr') \<Longrightarrow> allRequests b' = allRequests b"
  using process_responses_allRequests [of _ "dequeued b" "[]" out b']
  by (auto simp add: executeNext_unfold split: sum.splits if_splits prod.splits)

lemma recorded_round:
  assumes "process_responses rs b m = (Inr m', b')"
  shows "recorded (allRequests b) rs m' (map_of m)"
  unfolding recorded_def
proof (intro allI conjI impI, goal_cases)
  case (1 ident)
  from process_responses_absent [OF assms 1] show ?case .
next
  case (2 ident r)
  then have h1: "r \<in> set rs" and h2: "answers (allRequests b) ident r"
    and h3: "\<forall>r' \<in> set rs. answers (allRequests b) ident r' \<longrightarrow> r' = r"
    by blast+
  from process_responses_present [OF assms h1 h2 h3] show ?case .
qed

lemma recorded_append:
  assumes r1: "recorded reqs rs1 m1 Map.empty"
    and r2: "recorded reqs rs2 m (map_of acc ++ map_of m1)"
  shows "recorded reqs (rs1 @ rs2) m (map_of acc)"
  unfolding recorded_def
proof (intro allI conjI impI, goal_cases)
  case (1 ident)
  then have n1: "\<forall>r \<in> set rs1. \<not> answers reqs ident r"
    and n2: "\<forall>r \<in> set rs2. \<not> answers reqs ident r" by simp_all
  from r1 n1 have "map_of m1 ident = None" unfolding recorded_def by blast
  moreover from r2 n2 have "map_of m ident = (map_of acc ++ map_of m1) ident"
    unfolding recorded_def by blast
  ultimately show ?case by (simp add: map_add_def)
next
  case (2 ident r)
  then have rin: "r \<in> set (rs1 @ rs2)" and an: "answers reqs ident r"
    and un: "\<forall>r' \<in> set (rs1 @ rs2). answers reqs ident r' \<longrightarrow> r' = r"
    by blast+
  show ?case
  proof (cases "r \<in> set rs2")
    case True
    have un2: "\<forall>r' \<in> set rs2. answers reqs ident r' \<longrightarrow> r' = r" using un by simp
    from r2 True an un2 show ?thesis unfolding recorded_def by blast
  next
    case False
    then have r1in: "r \<in> set rs1" using rin by simp
    have un1: "\<forall>r' \<in> set rs1. answers reqs ident r' \<longrightarrow> r' = r" using un by simp
    have none2: "\<forall>r' \<in> set rs2. \<not> answers reqs ident r'" using un False by auto
    from r2 none2 have e: "map_of m ident = (map_of acc ++ map_of m1) ident"
      unfolding recorded_def by blast
    from r1 r1in an un1 obtain i request c where
      f: "request_of reqs (sr_id r) = Some (i, request)" "decode_content r = Inr c"
      "map_of m1 ident = Some \<lparr> resp_id = ident, resp_index = req_index request,
                                   resp_headers = sr_headers r, content = c \<rparr>"
      unfolding recorded_def by blast
    from e f(3) have "map_of m ident = Some \<lparr> resp_id = ident, resp_index = req_index request,
                                   resp_headers = sr_headers r, content = c \<rparr>"
      by (simp add: map_add_def)
    with f(1,2) show ?thesis by blast
  qed
qed

lemma recorded_nil: "recorded reqs [] m (map_of m)"
  by (simp add: recorded_def)

lemma executeNext_recorded:
  assumes "executeNext g (b, tr) = (Inr m, b', tr')"
  shows "\<exists>rs. received tr' = received tr @ rs \<and> distinct (map fst m)
           \<and> recorded (allRequests b) rs m Map.empty"
proof -
  from executeNext_cases [OF assms] obtain rs b2 where
    rc: "received tr' = received tr @ rs" and a: "allRequests b2 = allRequests b"
    and pr: "process_responses rs b2 [] = (Inr m, b')" by blast
  have d: "distinct (map fst m)"
    using process_responses_distinct [OF pr] by simp
  have "recorded (allRequests b2) rs m (map_of [])"
    using recorded_round [OF pr] .
  then have "recorded (allRequests b) rs m Map.empty" by (simp add: a)
  with rc d show ?thesis by blast
qed

lemma executeAll_loop_recorded:
  "executeAll_loop n g acc (b, tr) = Some (Inr m, b', tr') \<Longrightarrow> distinct (map fst acc) \<Longrightarrow>
   \<exists>rs. received tr' = received tr @ rs \<and> allRequests b' = allRequests b
     \<and> requestsQueue b' = [] \<and> distinct (map fst m)
     \<and> recorded (allRequests b) rs m (map_of acc)"
proof (induction n arbitrary: acc b tr)
  case 0
  then have "m = acc \<and> b' = b \<and> tr' = tr \<and> requestsQueue b = []"
    by (auto simp add: hasRequests_def split: if_splits)
  with "0.prems"(2) show ?case
    by (intro exI [of _ "[]"]) (simp add: recorded_nil)
next
  case (Suc n)
  show ?case
  proof (cases "hasRequests b")
    case False
    with Suc.prems have "m = acc \<and> b' = b \<and> tr' = tr \<and> requestsQueue b = []"
      by (auto simp add: hasRequests_def)
    with Suc.prems(2) show ?thesis
      by (intro exI [of _ "[]"]) (simp add: recorded_nil)
  next
    case True
    obtain out b1 tr1 where en: "executeNext g (b, tr) = (out, b1, tr1)"
      by (cases "executeNext g (b, tr)")
    with True Suc.prems(1) obtain r1 where o: "out = Inr r1"
      by (cases out) auto
    with en True Suc.prems(1) have rest: "executeAll_loop n g (merge acc r1) (b1, tr1) = Some (Inr m, b', tr')"
      by simp
    from en o have en': "executeNext g (b, tr) = (Inr r1, b1, tr1)" by simp
    from executeNext_recorded [OF en'] obtain rs1 where
      rc1: "received tr1 = received tr @ rs1" and d1: "distinct (map fst r1)"
      and rec1: "recorded (allRequests b) rs1 r1 Map.empty"
      by blast
    have a1: "allRequests b1 = allRequests b"
      using executeNext_allRequests [OF en] .
    have dm: "distinct (map fst (merge acc r1))"
      using distinct_merge [OF Suc.prems(2)] .
    from Suc.IH [OF rest dm] obtain rs2 where
      rc2: "received tr' = received tr1 @ rs2" and a': "allRequests b' = allRequests b1"
      and q': "requestsQueue b' = []" and d': "distinct (map fst m)"
      and rec2: "recorded (allRequests b1) rs2 m (map_of (merge acc r1))"
      by blast
    have rec2': "recorded (allRequests b) rs2 m (map_of acc ++ map_of r1)"
      using rec2 a1 map_of_merge [OF d1, of acc] by simp
    have rc: "received tr' = received tr @ (rs1 @ rs2)"
      using rc1 rc2 by simp
    have "recorded (allRequests b) (rs1 @ rs2) m (map_of acc)"
      using recorded_append [OF rec1 rec2'] .
    with rc a' a1 q' d' show ?thesis by (intro exI [of _ "rs1 @ rs2"]) simp
  qed
qed

lemma process_response_throttled:
  "request_of (allRequests b) (sr_id r) = Some (i, request) \<Longrightarrow> sr_status r = 429 \<Longrightarrow>
   process_response r b m =
     Inr (b\<lparr> requestsQueue := i # requestsQueue b,
            retryAfter := max (retryAfter b) (retry_after_of r) \<rparr>, m)"
  by (simp add: process_response_def)

lemma process_response_dropped:
  "request_of (allRequests b) (sr_id r) = Some (i, request) \<Longrightarrow> sr_status r \<noteq> 200 \<Longrightarrow>
   sr_status r \<noteq> 429 \<Longrightarrow> process_response r b m = Inr (b, m)"
  by (simp add: process_response_def)

lemma process_response_ok:
  "request_of (allRequests b) (sr_id r) = Some (i, request) \<Longrightarrow> sr_status r = 200 \<Longrightarrow>
   decode_content r = Inr c \<Longrightarrow>
   process_response r b m =
     Inr (b, AList.update (req_id request)
               \<lparr> resp_id = req_id request, resp_index = req_index request,
                 resp_headers = sr_headers r, content = c \<rparr> m)"
  by (simp add: process_response_def)

lemma process_response_queue:
  "process_response r b m = Inr (b', m') \<Longrightarrow>
   requestsQueue b' = rev (throttled (allRequests b) [r]) @ requestsQueue b
   \<and> retryAfter b \<le> retryAfter b'
   \<and> (sr_status r = 429 \<longrightarrow> retry_after_of r \<le> retryAfter b')
   \<and> scopes b' = scopes b \<and> nextIndex b' = nextIndex b"
  by (auto simp add: process_response_def split: option.splits if_splits sum.splits)

lemma throttled_append [simp]:
  "throttled reqs (rs @ rs') = throttled reqs rs @ throttled reqs rs'"
  by (induction rs) (auto split: option.splits)

lemma process_responses_queue:
  "process_responses rs b m = (Inr m', b') \<Longrightarrow>
   requestsQueue b' = rev (throttled (allRequests b) rs) @ requestsQueue b
   \<and> retryAfter b \<le> retryAfter b'
   \<and> (\<forall>r \<in> set rs. sr_status r = 429 \<longrightarrow> retry_after_of r \<le> retryAfter b')
   \<and> scopes b' = scopes b \<and> nextIndex b' = nextIndex b"
proof (induction rs arbitrary: b m)
  case Nil
  then show ?case by simp
next
  case (Cons r rs)
  show ?case
  proof (cases "process_response r b m")
    case (Inl e)
    with Cons.prems show ?thesis by simp
  next
    case (Inr p)
    obtain b1 m1 where p: "p = (b1, m1)" by (cases p)
    have a: "allRequests b1 = allRequests b"
      using Inr p process_response_allRequests by metis
    from Inr p Cons.prems have rest: "process_responses rs b1 m1 = (Inr m', b')" by simp
    have s1: "requestsQueue b1 = rev (throttled (allRequests b) [r]) @ requestsQueue b
       \<and> retryAfter b \<le> retryAfter b1
       \<and> (sr_status r = 429 \<longrightarrow> retry_after_of r \<le> retryAfter b1)
       \<and> scopes b1 = scopes b \<and> nextIndex b1 = nextIndex b"
      using process_response_queue [of r b m b1 m1] Inr p by simp
    have s2: "requestsQueue b' = rev (throttled (allRequests b) rs) @ requestsQueue b1
       \<and> retryAfter b1 \<le> retryAfter b'
       \<and> (\<forall>r \<in> set rs. sr_status r = 429 \<longrightarrow> retry_after_of r \<le> retryAfter b')
       \<and> scopes b' = scopes b1 \<and> nextIndex b' = nextIndex b1"
      using Cons.IH [OF rest] a by simp
    have t: "throttled (allRequests b) (r # rs) = throttled (allRequests b) [r] @ throttled (allRequests b) rs"
      using throttled_append [of "allRequests b" "[r]" rs] by simp
    from s1 s2 show ?thesis
      by (simp only: t rev_append append_assoc set_simps ball_simps) auto
  qed
qed

lemma executeNext_processed:
  assumes "executeNext g (b, tr) = (Inr m, b', tr')"
  shows "\<exists>rs. received tr' = received tr @ rs
           \<and> process_responses rs (dequeued b) [] = (Inr m, b')"
proof (cases "requestsQueue b = []")
  case True
  then have e: "m = [] \<and> tr' = tr @ delay_events b \<and> b' = after_delay b"
    using assms by (auto simp add: executeNext_unfold)
  have "dequeued b = after_delay b"
    using True by (simp add: dequeued_def after_delay_def)
  with e show ?thesis
    by (intro exI [of _ "[]"]) simp
next
  case False
  obtain steps where st: "build_steps (allRequests b) (take 20 (requestsQueue b)) = Inr steps"
    using assms False
    by (cases "build_steps (allRequests b) (take 20 (requestsQueue b))")
      (auto simp add: executeNext_unfold)
  obtain rs where po: "batch_post g (tr @ delay_events b @ [Post (middleware_of g b) steps]) = Inr rs"
    using assms False st
    by (cases "batch_post g (tr @ delay_events b @ [Post (middleware_of g b) steps])")
      (auto simp add: executeNext_unfold)
  obtain out b3 where pp: "process_responses rs (dequeued b) [] = (out, b3)"
    by (cases "process_responses rs (dequeued b) []")
  have pr: "process_responses rs (dequeued b) [] = (Inr m, b')"
    and t: "tr' = tr @ delay_events b @ [Post (middleware_of g b) steps, Received rs]"
    using assms False st po pp by (auto simp add: executeNext_unfold)
  have "received tr' = received tr @ rs" using t by simp
  with pr show ?thesis
    by (intro exI [of _ rs]) simp
qed

lemma request_of_SomeD:
  "request_of reqs s = Some (i, q) \<Longrightarrow> i < length reqs \<and> q = reqs ! i"
  by (auto simp add: request_of_def split: option.splits if_splits)

lemma request_of_toString:
  "i < length reqs \<Longrightarrow> request_of reqs (toString i) = Some (i, reqs ! i)"
  by (simp add: request_of_def parseInt_toString)

lemma throttled_mem:
  "i \<in> set (throttled reqs rs) \<Longrightarrow>
   \<exists>r \<in> set rs. sr_status r = 429 \<and> (\<exists>q. request_of reqs (sr_id r) = Some (i, q))"
  by (induction rs) (auto split: option.splits if_splits)

lemma throttled_valid:
  "i \<in> set (throttled reqs rs) \<Longrightarrow> i < length reqs"
  using throttled_mem request_of_SomeD by blast

lemma get_fields:
  "allRequests (get ident res scps hdrs b) =
     allRequests b @ [\<lparr> req_index = nextIndex b, req_id = ident, req_resource = res,
                         req_method = ''GET'', req_headers = hdrs \<rparr>]"
  "requestsQueue (get ident res scps hdrs b) = requestsQueue b @ [nextIndex b]"
  "nextIndex (get ident res scps hdrs b) = nextIndex b + 1"
  "retryAfter (get ident res scps hdrs b) = retryAfter b"
  by (simp_all add: get_def Let_def)

lemma enqueue_snoc:
  "enqueue (calls @ [c]) b = get (fst c) (fst (snd c)) (fst (snd (snd c))) (snd (snd (snd c))) (enqueue calls b)"
  by (simp add: enqueue_def)

lemma enqueue_new_Batch:
  "allRequests (enqueue calls new_Batch) =
     map (\<lambda>k. \<lparr> req_index = k, req_id = fst (calls ! k), req_resource = fst (snd (calls ! k)),
                 req_method = ''GET'', req_headers = snd (snd (snd (calls ! k))) \<rparr>) [0 ..< length calls]
   \<and> requestsQueue (enqueue calls new_Batch) = [0 ..< length calls]
   \<and> nextIndex (enqueue calls new_Batch) = length calls
   \<and> retryAfter (enqueue calls new_Batch) = 0"
proof (induction calls rule: rev_induct)
  case Nil
  then show ?case by (simp add: enqueue_def new_Batch_def)
next
  case (snoc c calls)
  then show ?case
    by (simp add: enqueue_snoc get_fields nth_append)
qed

lemma enqueue_ids:
  "map req_id (allRequests (enqueue calls new_Batch)) = map fst calls"
proof (induction calls rule: rev_induct)
  case Nil
  then show ?case by (simp add: enqueue_def new_Batch_def)
next
  case (snoc c calls)
  then show ?case by (simp add: enqueue_snoc get_fields)
qed

lemma enqueue_batch_ok: "batch_ok (enqueue calls new_Batch)"
  by (simp add: batch_ok_def enqueue_new_Batch list_all_iff o_def)

lemma build_steps_valid:
  "list_all (\<lambda>i. i < length reqs) is \<Longrightarrow>
   build_steps reqs is = Inr (map (\<lambda>i. step_of (reqs ! i)) is)"
  by (induction "is") (simp_all add: at_index_def step_of_def)

subsection \<open>Termination of \<open>executeAll\<close> when nothing is throttled\<close>

lemma process_responses_plain:
  "list_all (\<lambda>r. well_formed (allRequests b) r \<and> sr_status r \<noteq> 429) rs \<Longrightarrow>
   \<exists>m'. process_responses rs b m = (Inr m', b)"
proof (induction rs arbitrary: m)
  case Nil
  then show ?case by simp
next
  case (Cons r rs)
  then have wf: "well_formed (allRequests b) r" and n429: "sr_status r \<noteq> 429"
    and rest: "list_all (\<lambda>r. well_formed (allRequests b) r \<and> sr_status r \<noteq> 429) rs"
    by simp_all
  from wf obtain i request where ro: "request_of (allRequests b) (sr_id r) = Some (i, request)"
    by (auto simp add: well_formed_def split: option.splits)
  have "\<exists>m1. process_response r b m = Inr (b, m1)"
  proof (cases "sr_status r = 200")
    case True
    with wf obtain c where "decode_content r = Inr c"
      by (auto simp add: well_formed_def split: sum.splits)
    with ro True show ?thesis using process_response_ok by blast
  next
    case False
    with ro n429 show ?thesis using process_response_dropped by blast
  qed
  then obtain m1 where "process_response r b m = Inr (b, m1)" by blast
  moreover from Cons.IH [OF rest] obtain m' where "process_responses rs b m1 = (Inr m', b)" by blast
  ultimately show ?case by simp
qed



subsection \<open>Concrete runs\<close>

lemmas batch_eval =
  executeAll_def executeNext_def Let_def hasRequests_def enqueue_def get_def new_Batch_def
  at_index_def request_of_def parseInt_def is_ws_def is_digit_def digit_of_def digits_value_def
  toString.simps digit_char_def process_response_def decode_content_def retry_after_of_def
  num_or_def merge_def baseUrl_def echo_def

lemma two_requests_value:
  "two_requests =
     \<lparr> allRequests =
         [\<lparr> req_index = 0, req_id = ''a'', req_resource = ''/users/a'',
             req_method = ''GET'', req_headers = None \<rparr>,
          \<lparr> req_index = 1, req_id = ''b'', req_resource = ''/users/b'',
             req_method = ''GET'', req_headers = None \<rparr>],
       requestsQueue = [0, 1], scopes = [], retryAfter = 0, nextIndex = 2 \<rparr>"
  by (simp add: two_requests_def batch_eval)

lemma executeNext_throttling:
  "executeNext throttling_server (two_requests, []) =
     (Inr [], two_requests\<lparr> requestsQueue := [1, 0], retryAfter := 2 \<rparr>,
      [Post [] [\<lparr> step_id = ''0'', step_url = ''https://graph.microsoft.com/users/a'',
                   step_method = ''GET'', step_headers = None \<rparr>,
                \<lparr> step_id = ''1'', step_url = ''https://graph.microsoft.com/users/b'',
                   step_method = ''GET'', step_headers = None \<rparr>],
       Received [\<lparr> sr_id = ''0'', sr_status = 429, sr_headers = [(''Retry-After'', ''2'')], sr_body = JNull \<rparr>,
                 \<lparr> sr_id = ''1'', sr_status = 429, sr_headers = [], sr_body = JNull \<rparr>]])"
  by (simp add: two_requests_value throttling_server_def batch_eval)


text \<open>
  A run with throttling: both requests are throttled in the first round; the second
  round waits two seconds, posts them again and gets both answers.
\<close>

lemma executeAll_throttling:
  "map_option (\<lambda>r. (map_option (map fst) (case fst r of Inr m \<Rightarrow> Some m | Inl e \<Rightarrow> None),
                      requestsQueue (fst (snd r)),
                      map (map step_id) (posts (snd (snd r))),
                      [d. Delay d \<leftarrow> snd (snd r)]))
     (executeAll 2 throttling_server (two_requests, []))
   = Some (Some [''b'', ''a''], [], [[''0'', ''1''], [''1'', ''0'']], [2000])"
  by (simp add: two_requests_value throttling_server_def batch_eval eval_nat_numeral)

lemma batch_ok_index:
  "batch_ok b \<Longrightarrow> i < length (allRequests b) \<Longrightarrow> req_index (allRequests b ! i) = i"
proof -
  assume ok: "batch_ok b" and i: "i < length (allRequests b)"
  then have "map req_index (allRequests b) ! i = [0 ..< length (allRequests b)] ! i"
    by (simp add: batch_ok_def)
  with i show ?thesis by simp
qed

lemma echo_server_post:
  "batch_post echo_server (tr @ [Post mw steps]) = Inr (map echo steps)"
  by (simp add: echo_server_def)





subsection \<open>What one sub-response does\<close>

lemma str_includes_self: "str_includes s s"
  by (cases s) simp_all

lemma request_0_of_two:
  "request_of (allRequests two_requests) ''0'' =
     Some (0, \<lparr> req_index = 0, req_id = ''a'', req_resource = ''/users/a'',
                 req_method = ''GET'', req_headers = None \<rparr>)"
  by (simp add: two_requests_value request_of_def parseInt_def is_ws_def is_digit_def
      digit_of_def digits_value_def)




lemma executeNext_trace:
  "\<exists>rest. snd (snd (executeNext g (b, tr))) = tr @ delay_events b @ rest"
  by (auto simp add: executeNext_unfold split: sum.splits prod.splits)

lemma executeNext_queue:
  assumes en: "executeNext g (b, tr) = (Inr m, b', tr')" and rc: "received tr' = received tr @ rs"
  shows "requestsQueue b' = rev (throttled (allRequests b) rs) @ drop 20 (requestsQueue b)
     \<and> (\<forall>x \<in> set rs. sr_status x = 429 \<longrightarrow> retry_after_of x \<le> retryAfter b')
     \<and> process_responses rs (dequeued b) [] = (Inr m, b')"
proof -
  from executeNext_processed [OF en] obtain rs' where
    rc': "received tr' = received tr @ rs'"
    and pr: "process_responses rs' (dequeued b) [] = (Inr m, b')" by blast
  from rc rc' have "rs' = rs" by simp
  with pr have pr': "process_responses rs (dequeued b) [] = (Inr m, b')" by simp
  from process_responses_queue [OF pr'] pr' show ?thesis by simp
qed

text \<open>
  C3, as stated, fails: requests 0 and 1 are both throttled in one round; after the
  round the queue is \<open>[1, 0]\<close>, so request 0 is behind request 1, which was added
  after it.
\<close>

theorem throttled_order_counterexample:
  "map req_id (allRequests two_requests) = [''a'', ''b'']
   \<and> requestsQueue two_requests = [0, 1]
   \<and> map sr_status (received (snd (snd (executeNext throttling_server (two_requests, []))))) = [429, 429]
   \<and> map sr_id (received (snd (snd (executeNext throttling_server (two_requests, []))))) = [''0'', ''1'']
   \<and> requestsQueue (fst (snd (executeNext throttling_server (two_requests, [])))) = [1, 0]"
  by (simp add: executeNext_throttling) (simp add: two_requests_value)

text \<open>
  C3, amended. When a status-429 sub-response is processed, the index of its request
  is put at the front of the pending queue, \<open>retryAfter\<close> becomes the maximum of
  its current value and the parsed \<open>Retry-After\<close> header (1 when the header is
  missing, not a number or zero), and the result map is left as it is. After a round
  the queue is the throttled indices, last processed first, followed by the indices
  not yet dequeued, and \<open>retryAfter\<close> is at least every \<open>Retry-After\<close> of the
  round. When \<open>retryAfter\<close> is not zero, everything the next \<open>executeNext\<close>
  does comes after a delay of \<open>retryAfter\<close> seconds.
\<close>

theorem throttled_requeued_at_front:
  "(request_of (allRequests b) (sr_id r) = Some (i, request) \<and> sr_status r = 429
      \<longrightarrow> process_response r b m =
            Inr (b\<lparr> requestsQueue := i # requestsQueue b,
                   retryAfter := max (retryAfter b) (retry_after_of r) \<rparr>, m))
   \<and> retry_after_of r =
       (case map_of (sr_headers r) ''Retry-After'' of
          None \<Rightarrow> 1
        | Some h \<Rightarrow> (case parseInt h of None \<Rightarrow> 1 | Some v \<Rightarrow> if v \<noteq> 0 then v else 1))
   \<and> (executeNext g (b0, tr) = (Inr m1, b1, tr1) \<and> received tr1 = received tr @ rs
      \<longrightarrow> requestsQueue b1 = rev (throttled (allRequests b0) rs) @ drop 20 (requestsQueue b0)
          \<and> (\<forall>x \<in> set rs. sr_status x = 429 \<longrightarrow> retry_after_of x \<le> retryAfter b1)
          \<and> (retryAfter b1 \<noteq> 0
               \<longrightarrow> (\<exists>rest. snd (snd (executeNext g (b1, tr1)))
                           = tr1 @ Delay (retryAfter b1 * 1000) # rest)))"
proof -
  have a: "request_of (allRequests b) (sr_id r) = Some (i, request) \<and> sr_status r = 429
      \<longrightarrow> process_response r b m =
            Inr (b\<lparr> requestsQueue := i # requestsQueue b,
                   retryAfter := max (retryAfter b) (retry_after_of r) \<rparr>, m)"
    using process_response_throttled by blast
  have h: "retry_after_of r =
       (case map_of (sr_headers r) ''Retry-After'' of
          None \<Rightarrow> 1
        | Some h \<Rightarrow> (case parseInt h of None \<Rightarrow> 1 | Some v \<Rightarrow> if v \<noteq> 0 then v else 1))"
    by (simp add: retry_after_of_def num_or_def split: option.splits)
  have c: "executeNext g (b0, tr) = (Inr m1, b1, tr1) \<and> received tr1 = received tr @ rs
      \<longrightarrow> requestsQueue b1 = rev (throttled (allRequests b0) rs) @ drop 20 (requestsQueue b0)
          \<and> (\<forall>x \<in> set rs. sr_status x = 429 \<longrightarrow> retry_after_of x \<le> retryAfter b1)
          \<and> (retryAfter b1 \<noteq> 0
               \<longrightarrow> (\<exists>rest. snd (snd (executeNext g (b1, tr1)))
                           = tr1 @ Delay (retryAfter b1 * 1000) # rest))"
  proof (intro impI, elim conjE)
    assume en: "executeNext g (b0, tr) = (Inr m1, b1, tr1)"
      and rc: "received tr1 = received tr @ rs"
    have d: "retryAfter b1 \<noteq> 0
               \<longrightarrow> (\<exists>rest. snd (snd (executeNext g (b1, tr1)))
                           = tr1 @ Delay (retryAfter b1 * 1000) # rest)"
      using executeNext_trace [of g b1 tr1] by (auto simp add: delay_events_def)
    from executeNext_queue [OF en rc] d
    show "requestsQueue b1 = rev (throttled (allRequests b0) rs) @ drop 20 (requestsQueue b0)
          \<and> (\<forall>x \<in> set rs. sr_status x = 429 \<longrightarrow> retry_after_of x \<le> retryAfter b1)
          \<and> (retryAfter b1 \<noteq> 0
               \<longrightarrow> (\<exists>rest. snd (snd (executeNext g (b1, tr1)))
                           = tr1 @ Delay (retryAfter b1 * 1000) # rest))"
      by simp
  qed
  from a h c show ?thesis by blast
qed


text \<open>The amended C3 on the round in which both requests are throttled.\<close>

theorem throttled_requeued_at_front_witness:
  "process_response throttled_response two_requests [] =
     Inr (two_requests\<lparr> requestsQueue := [0, 0, 1], retryAfter := 2 \<rparr>, [])
   \<and> retry_after_of throttled_response = 2
   \<and> fst (executeNext throttling_server (two_requests, [])) = Inr []
   \<and> requestsQueue (fst (snd (executeNext throttling_server (two_requests, [])))) = [1, 0]
   \<and> retryAfter (fst (snd (executeNext throttling_server (two_requests, [])))) = 2
   \<and> (\<exists>rest. snd (snd (executeNext throttling_server (snd (executeNext throttling_server (two_requests, [])))))
         = snd (snd (executeNext throttling_server (two_requests, []))) @ Delay 2000 # rest)"
proof -
  define rs where "rs = [\<lparr> sr_id = ''0'', sr_status = 429, sr_headers = [(''Retry-After'', ''2'')], sr_body = JNull \<rparr>,
                 \<lparr> sr_id = ''1'', sr_status = 429, sr_headers = [], sr_body = JNull \<rparr>]"
  define tr1 where "tr1 = [Post [] [\<lparr> step_id = ''0'', step_url = ''https://graph.microsoft.com/users/a'',
                   step_method = ''GET'', step_headers = None \<rparr>,
                \<lparr> step_id = ''1'', step_url = ''https://graph.microsoft.com/users/b'',
                   step_method = ''GET'', step_headers = None \<rparr>],
       Received rs]"
  define b1 where "b1 = two_requests\<lparr> requestsQueue := [1, 0], retryAfter := 2 \<rparr>"
  have en: "executeNext throttling_server (two_requests, []) = (Inr [], b1, tr1)"
    by (simp add: executeNext_throttling b1_def tr1_def rs_def)
  have rc: "received tr1 = received [] @ rs" by (simp add: tr1_def)
  have ra: "retryAfter b1 \<noteq> 0" "retryAfter b1 * 1000 = 2000" by (simp_all add: b1_def)
  have q: "requestsQueue two_requests = [0, 1]" "retryAfter two_requests = 0"
    by (simp_all add: two_requests_value)
  have rt: "retry_after_of throttled_response = 2"
    by (simp add: retry_after_of_def throttled_response_def parseInt_def is_ws_def is_digit_def
        digit_of_def digits_value_def num_or_def)
  note inst = throttled_requeued_at_front [of two_requests throttled_response 0
      "\<lparr> req_index = 0, req_id = ''a'', req_resource = ''/users/a'',
         req_method = ''GET'', req_headers = None \<rparr>" "[]"
      throttling_server two_requests "[]" "[]" b1 tr1 rs]
  have s0: "sr_id throttled_response = ''0''" "sr_status throttled_response = 429"
    by (simp_all add: throttled_response_def)
  have nx: "\<exists>rest. snd (snd (executeNext throttling_server (b1, tr1))) = tr1 @ Delay 2000 # rest"
    using inst en rc ra by simp
  have st: "process_response throttled_response two_requests [] =
     Inr (two_requests\<lparr> requestsQueue := [0, 0, 1], retryAfter := 2 \<rparr>, [])"
    using inst request_0_of_two s0 q rt by simp
  have f: "requestsQueue b1 = [1, 0]" "retryAfter b1 = 2" by (simp_all add: b1_def)
  from en nx st rt f show ?thesis by simp
qed

lemma answers_index:
  assumes d: "distinct (map req_id reqs)" and ro: "request_of reqs (sr_id r) = Some (i, request)"
    and an: "answers reqs (req_id request) x"
  shows "sr_status x = 200 \<and> (\<exists>q. request_of reqs (sr_id x) = Some (i, q))"
proof -
  from ro have i: "i < length reqs" "request = reqs ! i" using request_of_SomeD by blast+
  from an obtain j q where x: "sr_status x = 200" "request_of reqs (sr_id x) = Some (j, q)"
    "req_id q = req_id request"
    by (auto simp add: answers_def split: option.splits)
  from x(2) have j: "j < length reqs" "q = reqs ! j" using request_of_SomeD by blast+
  have "j = i"
    using d i j x(3) nth_eq_iff_index_eq [of "map req_id reqs" j i] by simp
  with x show ?thesis by blast
qed

text \<open>
  C4. A sub-response that designates a request and whose status is neither 200 nor 429
  leaves the batch and the result map as they are and raises nothing. After a round in
  which every sub-response for that request had such a status, its index is not in the
  queue (it was dequeued once), and, the ids being pairwise distinct, its id is not in
  the round's map. After an \<open>executeAll\<close> during which no sub-response for that
  request had status 200, its id is not in the merged map.
\<close>

theorem other_status_dropped:
  "(request_of (allRequests b) (sr_id r) = Some (i, request)
      \<and> sr_status r \<noteq> 200 \<and> sr_status r \<noteq> 429
     \<longrightarrow> process_response r b m = Inr (b, m))
   \<and> (executeNext g (b, tr) = (Inr m1, b1, tr1) \<and> received tr1 = received tr @ rs
      \<and> request_of (allRequests b) (sr_id r) = Some (i, request)
      \<and> (\<forall>x \<in> set rs. (\<exists>q. request_of (allRequests b) (sr_id x) = Some (i, q))
             \<longrightarrow> sr_status x \<noteq> 200 \<and> sr_status x \<noteq> 429)
      \<and> i \<notin> set (drop 20 (requestsQueue b))
      \<and> distinct (map req_id (allRequests b))
     \<longrightarrow> i \<notin> set (requestsQueue b1) \<and> map_of m1 (req_id request) = None)
   \<and> (executeAll n g (b, tr) = Some (Inr m2, b2, tr2) \<and> received tr2 = received tr @ rs2
      \<and> request_of (allRequests b) (sr_id r) = Some (i, request)
      \<and> (\<forall>x \<in> set rs2. (\<exists>q. request_of (allRequests b) (sr_id x) = Some (i, q))
             \<longrightarrow> sr_status x \<noteq> 200)
      \<and> distinct (map req_id (allRequests b))
     \<longrightarrow> requestsQueue b2 = [] \<and> map_of m2 (req_id request) = None)"
proof -
  have a: "request_of (allRequests b) (sr_id r) = Some (i, request)
      \<and> sr_status r \<noteq> 200 \<and> sr_status r \<noteq> 429
     \<longrightarrow> process_response r b m = Inr (b, m)"
    using process_response_dropped by blast
  have c: "executeNext g (b, tr) = (Inr m1, b1, tr1) \<and> received tr1 = received tr @ rs
      \<and> request_of (allRequests b) (sr_id r) = Some (i, request)
      \<and> (\<forall>x \<in> set rs. (\<exists>q. request_of (allRequests b) (sr_id x) = Some (i, q))
             \<longrightarrow> sr_status x \<noteq> 200 \<and> sr_status x \<noteq> 429)
      \<and> i \<notin> set (drop 20 (requestsQueue b))
      \<and> distinct (map req_id (allRequests b))
     \<longrightarrow> i \<notin> set (requestsQueue b1) \<and> map_of m1 (req_id request) = None"
  proof (intro impI, elim conjE)
    assume en: "executeNext g (b, tr) = (Inr m1, b1, tr1)"
      and rc: "received tr1 = received tr @ rs"
      and ro: "request_of (allRequests b) (sr_id r) = Some (i, request)"
      and al: "\<forall>x \<in> set rs. (\<exists>q. request_of (allRequests b) (sr_id x) = Some (i, q))
             \<longrightarrow> sr_status x \<noteq> 200 \<and> sr_status x \<noteq> 429"
      and nq: "i \<notin> set (drop 20 (requestsQueue b))"
      and d: "distinct (map req_id (allRequests b))"
    from executeNext_queue [OF en rc] have
      q: "requestsQueue b1 = rev (throttled (allRequests b) rs) @ drop 20 (requestsQueue b)"
      and pr: "process_responses rs (dequeued b) [] = (Inr m1, b1)" by simp_all
    have "i \<notin> set (throttled (allRequests b) rs)"
      using throttled_mem [of i "allRequests b" rs] al by blast
    with q nq have p1: "i \<notin> set (requestsQueue b1)" by simp
    have "\<forall>x \<in> set rs. \<not> answers (allRequests (dequeued b)) (req_id request) x"
      using answers_index [OF d ro] al by auto
    from process_responses_absent [OF pr this] have "map_of m1 (req_id request) = None" by simp
    with p1 show "i \<notin> set (requestsQueue b1) \<and> map_of m1 (req_id request) = None" by simp
  qed
  have e: "executeAll n g (b, tr) = Some (Inr m2, b2, tr2) \<and> received tr2 = received tr @ rs2
      \<and> request_of (allRequests b) (sr_id r) = Some (i, request)
      \<and> (\<forall>x \<in> set rs2. (\<exists>q. request_of (allRequests b) (sr_id x) = Some (i, q))
             \<longrightarrow> sr_status x \<noteq> 200)
      \<and> distinct (map req_id (allRequests b))
     \<longrightarrow> requestsQueue b2 = [] \<and> map_of m2 (req_id request) = None"
  proof (intro impI, elim conjE)
    assume ea: "executeAll n g (b, tr) = Some (Inr m2, b2, tr2)"
      and rc: "received tr2 = received tr @ rs2"
      and ro: "request_of (allRequests b) (sr_id r) = Some (i, request)"
      and al: "\<forall>x \<in> set rs2. (\<exists>q. request_of (allRequests b) (sr_id x) = Some (i, q))
             \<longrightarrow> sr_status x \<noteq> 200"
      and d: "distinct (map req_id (allRequests b))"
    from ea have "executeAll_loop n g [] (b, tr) = Some (Inr m2, b2, tr2)"
      by (simp add: executeAll_def)
    from executeAll_loop_recorded [OF this] obtain rs' where
      rc': "received tr2 = received tr @ rs'" and q: "requestsQueue b2 = []"
      and rec: "recorded (allRequests b) rs' m2 (map_of [])" by auto
    from rc rc' have "rs' = rs2" by simp
    with rec have rec': "recorded (allRequests b) rs2 m2 Map.empty" by simp
    have "\<forall>x \<in> set rs2. \<not> answers (allRequests b) (req_id request) x"
      using answers_index [OF d ro] al by auto
    with rec' have "map_of m2 (req_id request) = None"
      unfolding recorded_def by blast
    with q show "requestsQueue b2 = [] \<and> map_of m2 (req_id request) = None" by simp
  qed
  from a c e show ?thesis by blast
qed

lemma executeNext_not_found:
  "executeNext not_found_server (two_requests, []) =
     (Inr [(''b'', \<lparr> resp_id = ''b'', resp_index = 1, resp_headers = [],
                    content = JObj [(''url'', JStr ''https://graph.microsoft.com/users/b'')] \<rparr>)],
      two_requests\<lparr> requestsQueue := [] \<rparr>,
      [Post [] [\<lparr> step_id = ''0'', step_url = ''https://graph.microsoft.com/users/a'',
                   step_method = ''GET'', step_headers = None \<rparr>,
                \<lparr> step_id = ''1'', step_url = ''https://graph.microsoft.com/users/b'',
                   step_method = ''GET'', step_headers = None \<rparr>],
       Received [not_found_response,
                 \<lparr> sr_id = ''1'', sr_status = 200, sr_headers = [],
                    sr_body = JObj [(''url'', JStr ''https://graph.microsoft.com/users/b'')] \<rparr>]])"
  by (simp add: two_requests_value not_found_server_def not_found_response_def batch_eval)

lemma executeAll_not_found:
  "executeAll (Suc 0) not_found_server (two_requests, []) =
     Some (executeNext not_found_server (two_requests, []))"
  by (simp add: executeAll_def executeNext_not_found hasRequests_def merge_def)
    (simp add: two_requests_value)

text \<open>C4 on two requests of which the first is answered with status 404.\<close>

theorem other_status_dropped_witness:
  "process_response not_found_response two_requests [] = Inr (two_requests, [])
   \<and> fst (executeNext not_found_server (two_requests, [])) =
       Inr [(''b'', \<lparr> resp_id = ''b'', resp_index = 1, resp_headers = [],
                    content = JObj [(''url'', JStr ''https://graph.microsoft.com/users/b'')] \<rparr>)]
   \<and> 0 \<notin> set (requestsQueue (fst (snd (executeNext not_found_server (two_requests, [])))))
   \<and> map_of (case fst (executeNext not_found_server (two_requests, [])) of Inr m \<Rightarrow> m | Inl e \<Rightarrow> []) ''a'' = None
   \<and> (\<exists>m b' tr'. executeAll (Suc 0) not_found_server (two_requests, []) = Some (Inr m, b', tr')
         \<and> requestsQueue b' = [] \<and> map_of m ''a'' = None)"
proof -
  define m where "m = [(''b'', \<lparr> resp_id = ''b'', resp_index = 1, resp_headers = [],
                    content = JObj [(''url'', JStr ''https://graph.microsoft.com/users/b'')] \<rparr>)]"
  define rs where "rs = [not_found_response,
                 \<lparr> sr_id = ''1'', sr_status = 200, sr_headers = [],
                    sr_body = JObj [(''url'', JStr ''https://graph.microsoft.com/users/b'')] \<rparr>]"
  define tr1 where "tr1 = [Post [] [\<lparr> step_id = ''0'', step_url = ''https://graph.microsoft.com/users/a'',
                   step_method = ''GET'', step_headers = None \<rparr>,
                \<lparr> step_id = ''1'', step_url = ''https://graph.microsoft.com/users/b'',
                   step_method = ''GET'', step_headers = None \<rparr>],
       Received rs]"
  define b1 where "b1 = two_requests\<lparr> requestsQueue := [] \<rparr>"
  have en: "executeNext not_found_server (two_requests, []) = (Inr m, b1, tr1)"
    by (simp add: executeNext_not_found m_def b1_def tr1_def rs_def)
  have ea: "executeAll (Suc 0) not_found_server (two_requests, []) = Some (Inr m, b1, tr1)"
    by (simp add: executeAll_not_found en)
  have rc: "received tr1 = received [] @ rs" by (simp add: tr1_def)
  have s0: "sr_id not_found_response = ''0''" "sr_status not_found_response = 404"
    by (simp_all add: not_found_response_def)
  have al: "\<forall>x \<in> set rs. (\<exists>q. request_of (allRequests two_requests) (sr_id x) = Some (0, q))
             \<longrightarrow> sr_status x \<noteq> 200 \<and> sr_status x \<noteq> 429"
    by (simp add: rs_def not_found_response_def two_requests_value request_of_def parseInt_def
        is_ws_def is_digit_def digit_of_def digits_value_def)
  have nq: "0 \<notin> set (drop 20 (requestsQueue two_requests))"
    by (simp add: two_requests_value)
  have d: "distinct (map req_id (allRequests two_requests))"
    by (simp add: two_requests_value)
  note inst = other_status_dropped [of two_requests not_found_response 0
      "\<lparr> req_index = 0, req_id = ''a'', req_resource = ''/users/a'',
         req_method = ''GET'', req_headers = None \<rparr>" "[]"
      not_found_server "[]" m b1 tr1 rs "Suc 0" m b1 tr1 rs]
  have p1: "process_response not_found_response two_requests [] = Inr (two_requests, [])"
    using inst request_0_of_two s0 by simp
  have p2: "0 \<notin> set (requestsQueue b1) \<and> map_of m ''a'' = None"
    using inst en rc request_0_of_two s0 al nq d by simp
  have p3: "requestsQueue b1 = [] \<and> map_of m ''a'' = None"
    using inst ea rc request_0_of_two s0 al d by simp
  from en ea p1 p2 p3 show ?thesis by (simp add: m_def)
qed

subsection \<open>Batch size\<close>

lemma build_steps_length:
  "build_steps reqs ixs = Inr steps \<Longrightarrow> length steps = length ixs"
  by (induction ixs arbitrary: steps) (auto split: option.splits sum.splits)

lemma process_response_keys:
  assumes "process_response r b m = Inr (b', m')"
  shows "fst ` set m' = fst ` set m \<union>
     {req_id q | q. sr_status r = 200 \<and> (\<exists>i. request_of (allRequests b) (sr_id r) = Some (i, q))}"
proof (cases "request_of (allRequests b) (sr_id r)")
  case None
  with assms show ?thesis by (simp add: process_response_def)
next
  case (Some p)
  obtain i q where p: "p = (i, q)" by (cases p)
  show ?thesis
  proof (cases "sr_status r = 200")
    case True
    with assms Some p obtain c where c: "decode_content r = Inr c"
      by (cases "decode_content r") (simp_all add: process_response_def)
    from process_response_ok [of b r i q c m] Some p True c assms
    have "m' = AList.update (req_id q)
               \<lparr> resp_id = req_id q, resp_index = req_index q,
                 resp_headers = sr_headers r, content = c \<rparr> m"
      by simp
    then have "fst ` set m' = {req_id q} \<union> fst ` set m" by (simp only: dom_update)
    with Some p True show ?thesis by auto
  next
    case False
    with assms Some p have "m' = m"
      by (auto simp add: process_response_def split: if_splits)
    with False show ?thesis by simp
  qed
qed

lemma process_responses_keys:
  "process_responses rs b m = (Inr m', b') \<Longrightarrow>
   fst ` set m' = fst ` set m \<union>
     {req_id q | q. \<exists>r \<in> set rs. sr_status r = 200 \<and> (\<exists>i. request_of (allRequests b) (sr_id r) = Some (i, q))}"
proof (induction rs arbitrary: b m)
  case Nil
  then show ?case by simp
next
  case (Cons r rs)
  show ?case
  proof (cases "process_response r b m")
    case (Inl e)
    with Cons.prems show ?thesis by simp
  next
    case (Inr p)
    obtain b1 m1 where p: "p = (b1, m1)" by (cases p)
    have a: "allRequests b1 = allRequests b"
      using Inr p process_response_allRequests by metis
    from Inr p Cons.prems have rest: "process_responses rs b1 m1 = (Inr m', b')" by simp
    have k1: "fst ` set m1 = fst ` set m \<union>
       {req_id q | q. sr_status r = 200 \<and> (\<exists>i. request_of (allRequests b) (sr_id r) = Some (i, q))}"
      using process_response_keys [of r b m b1 m1] Inr p by simp
    have k2: "fst ` set m' = fst ` set m1 \<union>
       {req_id q | q. \<exists>r \<in> set rs. sr_status r = 200 \<and> (\<exists>i. request_of (allRequests b) (sr_id r) = Some (i, q))}"
      using Cons.IH [OF rest] a by simp
    show ?thesis unfolding k2 k1 by auto
  qed
qed

lemma merge_keys: "fst ` set (merge acc r) = fst ` set acc \<union> fst ` set r"
proof (induction r arbitrary: acc)
  case Nil
  then show ?case by (simp add: merge_def)
next
  case (Cons kv r)
  have "merge acc (kv # r) = merge (AList.update (fst kv) (snd kv) acc) r"
    by (simp add: merge_def)
  then show ?case using Cons [of "AList.update (fst kv) (snd kv) acc"]
    by (auto simp add: dom_update)
qed

lemma process_responses_any_queue:
  "process_responses rs b m = (out, b') \<Longrightarrow> \<exists>thr. requestsQueue b' = thr @ requestsQueue b"
proof (induction rs arbitrary: b m)
  case Nil
  then show ?case by simp
next
  case (Cons r rs)
  show ?case
  proof (cases "process_response r b m")
    case (Inl e)
    with Cons.prems show ?thesis by simp
  next
    case (Inr p)
    obtain b1 m1 where p: "p = (b1, m1)" by (cases p)
    from Inr p Cons.prems have rest: "process_responses rs b1 m1 = (out, b')" by simp
    from Cons.IH [OF rest] obtain thr where t: "requestsQueue b' = thr @ requestsQueue b1" by blast
    have "requestsQueue b1 = rev (throttled (allRequests b) [r]) @ requestsQueue b"
      using process_response_queue [of r b m b1 m1] Inr p by simp
    with t show ?thesis by simp
  qed
qed

text \<open>Whatever the outcome, a round posts at most once, at most 20 steps.\<close>

lemma executeNext_posts_bound:
  "\<exists>ps. posts (snd (snd (executeNext g (b, tr)))) = posts tr @ ps
      \<and> length ps \<le> 1 \<and> (\<forall>steps \<in> set ps. length steps \<le> 20)"
proof (cases "requestsQueue b = []")
  case True
  then show ?thesis by (simp add: executeNext_unfold)
next
  case False
  show ?thesis
  proof (cases "build_steps (allRequests b) (take 20 (requestsQueue b))")
    case (Inl e)
    with False show ?thesis by (simp add: executeNext_unfold)
  next
    case (Inr steps)
    have l: "length steps \<le> 20" using build_steps_length [OF Inr] by simp
    have "posts (snd (snd (executeNext g (b, tr)))) = posts tr @ [steps]"
      using False Inr by (auto simp add: executeNext_unfold split: sum.splits prod.splits)
    with l show ?thesis by (intro exI [of _ "[steps]"]) simp
  qed
qed

lemma executeNext_dequeues:
  "\<exists>thr. requestsQueue (fst (snd (executeNext g (b, tr)))) = thr @ drop 20 (requestsQueue b)"
proof (cases "requestsQueue b = []")
  case True
  then show ?thesis by (simp add: executeNext_unfold)
next
  case False
  show ?thesis
  proof (cases "build_steps (allRequests b) (take 20 (requestsQueue b))")
    case (Inl e)
    with False show ?thesis by (simp add: executeNext_unfold)
  next
    case (Inr steps)
    show ?thesis
    proof (cases "batch_post g (tr @ delay_events b @ [Post (middleware_of g b) steps])")
      case (Inl e)
      with False Inr show ?thesis by (simp add: executeNext_unfold)
    next
      case rs: (Inr rs)
      obtain out b3 where pp: "process_responses rs (dequeued b) [] = (out, b3)"
        by (cases "process_responses rs (dequeued b) []")
      from process_responses_any_queue [OF pp] obtain thr where
        "requestsQueue b3 = thr @ drop 20 (requestsQueue b)" by auto
      with False Inr rs pp show ?thesis by (simp add: executeNext_unfold)
    qed
  qed
qed

lemma executeNext_posts_valid:
  assumes "batch_ok b" and "requestsQueue b \<noteq> []"
  shows "posts (snd (snd (executeNext g (b, tr)))) =
           posts tr @ [map (\<lambda>i. step_of (allRequests b ! i)) (take 20 (requestsQueue b))]"
proof -
  have v: "list_all (\<lambda>i. i < length (allRequests b)) (take 20 (requestsQueue b))"
    using assms(1) by (auto simp add: batch_ok_def list_all_iff dest: in_set_takeD)
  from build_steps_valid [OF v] assms(2) show ?thesis
    by (auto simp add: executeNext_unfold split: sum.splits prod.splits)
qed

lemma dequeued_batch_ok: "batch_ok b \<Longrightarrow> batch_ok (dequeued b)"
  by (auto simp add: batch_ok_def list_all_iff dest: in_set_dropD)

lemma executeNext_all_succeed:
  assumes ok: "batch_ok b" and su: "all_succeed g" and ne: "requestsQueue b \<noteq> []"
  shows "\<exists>m tr'. executeNext g (b, tr) = (Inr m, dequeued b, tr')
           \<and> posts tr' = posts tr @ [map (\<lambda>i. step_of (allRequests b ! i)) (take 20 (requestsQueue b))]
           \<and> fst ` set m = (\<lambda>i. req_id (allRequests b ! i)) ` set (take 20 (requestsQueue b))
           \<and> distinct (map fst m)"
proof -
  define ixs where "ixs = take 20 (requestsQueue b)"
  define steps where "steps = map (\<lambda>i. step_of (allRequests b ! i)) ixs"
  have vq: "\<And>i. i \<in> set ixs \<Longrightarrow> i < length (allRequests b)"
    using ok by (auto simp add: ixs_def batch_ok_def list_all_iff dest: in_set_takeD)
  then have v: "list_all (\<lambda>i. i < length (allRequests b)) ixs"
    by (simp add: list_all_iff)
  have st: "build_steps (allRequests b) (take 20 (requestsQueue b)) = Inr steps"
    using build_steps_valid [OF v] by (simp add: steps_def ixs_def)
  have ids: "set (map step_id steps) = toString ` set ixs"
  proof -
    have "\<And>i. i \<in> set ixs \<Longrightarrow> step_id (step_of (allRequests b ! i)) = toString i"
      using vq ok by (simp add: step_of_def batch_ok_index)
    then show ?thesis by (auto simp add: steps_def image_iff)
  qed
  have "case batch_post g ((tr @ delay_events b) @ [Post (middleware_of g b) steps]) of
              Inl e \<Rightarrow> False
            | Inr rs \<Rightarrow> set (map sr_id rs) = set (map step_id steps)
                \<and> list_all (\<lambda>r. sr_status r = 200
                       \<and> (case decode_content r of Inl e \<Rightarrow> False | Inr c \<Rightarrow> True)) rs"
    using su unfolding all_succeed_def by blast
  then obtain rs where
    po: "batch_post g (tr @ delay_events b @ [Post (middleware_of g b) steps]) = Inr rs"
    and rid: "set (map sr_id rs) = toString ` set ixs"
    and good: "list_all (\<lambda>r. sr_status r = 200
                       \<and> (case decode_content r of Inl e \<Rightarrow> False | Inr c \<Rightarrow> True)) rs"
    using ids
    by (cases "batch_post g ((tr @ delay_events b) @ [Post (middleware_of g b) steps])") simp_all
  have des: "\<And>r. r \<in> set rs \<Longrightarrow>
      \<exists>i \<in> set ixs. request_of (allRequests b) (sr_id r) = Some (i, allRequests b ! i)"
  proof -
    fix r assume "r \<in> set rs"
    then have "sr_id r \<in> toString ` set ixs" using rid by auto
    then obtain i where "i \<in> set ixs" "sr_id r = toString i" by auto
    then show "\<exists>i \<in> set ixs. request_of (allRequests b) (sr_id r) = Some (i, allRequests b ! i)"
      using vq request_of_toString by auto
  qed
  have wf: "list_all (\<lambda>r. well_formed (allRequests (dequeued b)) r \<and> sr_status r \<noteq> 429) rs"
    unfolding list_all_iff
  proof (intro ballI)
    fix r assume r: "r \<in> set rs"
    from des [OF r] obtain i where "request_of (allRequests b) (sr_id r) = Some (i, allRequests b ! i)"
      by blast
    moreover from good r have "sr_status r = 200"
      and "case decode_content r of Inl e \<Rightarrow> False | Inr c \<Rightarrow> True"
      by (simp_all add: list_all_iff)
    ultimately show "well_formed (allRequests (dequeued b)) r \<and> sr_status r \<noteq> 429"
      by (simp add: well_formed_def)
  qed
  from process_responses_plain [OF wf] obtain m where
    pr: "process_responses rs (dequeued b) [] = (Inr m, dequeued b)" by blast
  have en: "executeNext g (b, tr) =
      (Inr m, dequeued b, tr @ delay_events b @ [Post (middleware_of g b) steps, Received rs])"
    using ne st po pr by (simp add: executeNext_unfold)
  have keys: "fst ` set m = (\<lambda>i. req_id (allRequests b ! i)) ` set ixs"
  proof -
    have "fst ` set m =
       {req_id q | q. \<exists>r \<in> set rs. sr_status r = 200
           \<and> (\<exists>i. request_of (allRequests b) (sr_id r) = Some (i, q))}"
      using process_responses_keys [OF pr] by simp
    also have "\<dots> = (\<lambda>i. req_id (allRequests b ! i)) ` set ixs"
    proof (intro set_eqI iffI)
      fix k
      assume "k \<in> {req_id q | q. \<exists>r \<in> set rs. sr_status r = 200
           \<and> (\<exists>i. request_of (allRequests b) (sr_id r) = Some (i, q))}"
      then obtain q r i where r: "r \<in> set rs" "request_of (allRequests b) (sr_id r) = Some (i, q)"
        "k = req_id q" by blast
      from des [OF r(1)] r(2) have "i \<in> set ixs" "q = allRequests b ! i" by auto
      with r(3) show "k \<in> (\<lambda>i. req_id (allRequests b ! i)) ` set ixs" by blast
    next
      fix k
      assume "k \<in> (\<lambda>i. req_id (allRequests b ! i)) ` set ixs"
      then obtain i where i: "i \<in> set ixs" "k = req_id (allRequests b ! i)" by blast
      then have "toString i \<in> set (map sr_id rs)" using rid by simp
      then obtain r where r: "r \<in> set rs" "sr_id r = toString i" by auto
      have "sr_status r = 200" using good r(1) by (simp add: list_all_iff)
      moreover have "request_of (allRequests b) (sr_id r) = Some (i, allRequests b ! i)"
        using r(2) vq [OF i(1)] request_of_toString by simp
      ultimately show "k \<in> {req_id q | q. \<exists>r \<in> set rs. sr_status r = 200
           \<and> (\<exists>i. request_of (allRequests b) (sr_id r) = Some (i, q))}"
        using r(1) i(2) by blast
    qed
    finally show ?thesis .
  qed
  have d: "distinct (map fst m)"
    using process_responses_distinct [OF pr] by simp
  have ps: "posts (tr @ delay_events b @ [Post (middleware_of g b) steps, Received rs]) = posts tr @ [steps]"
    by simp
  from en keys d ps show ?thesis
    unfolding steps_def ixs_def by blast
qed

lemma executeAll_loop_done:
  "\<not> hasRequests (fst s) \<Longrightarrow> executeAll_loop k g acc s = Some (Inr acc, s)"
  by (cases k) simp_all

lemma executeAll_25:
  assumes len: "length calls = 25" and dis: "distinct (map fst calls)"
    and su: "all_succeed g" and n: "2 \<le> n"
  shows "\<exists>m b' tr'. executeAll n g (enqueue calls new_Batch, []) = Some (Inr m, b', tr')
     \<and> posts tr' =
         [map (\<lambda>i. step_of (allRequests (enqueue calls new_Batch) ! i)) [0 ..< 20],
          map (\<lambda>i. step_of (allRequests (enqueue calls new_Batch) ! i)) [20 ..< 25]]
     \<and> length m = 25 \<and> set (map fst m) = set (map fst calls)"
proof -
  define b0 where "b0 = enqueue calls new_Batch"
  have ok0: "batch_ok b0" by (simp add: b0_def enqueue_batch_ok)
  have q0: "requestsQueue b0 = [0 ..< 25]"
    using enqueue_new_Batch [of calls] len by (simp add: b0_def)
  have ids: "map req_id (allRequests b0) = map fst calls"
    by (simp add: b0_def enqueue_ids)
  have l0: "length (allRequests b0) = 25"
    using ids len by (metis length_map)
  have ne0: "requestsQueue b0 \<noteq> []" using q0 by simp
  from executeNext_all_succeed [OF ok0 su ne0, of "[]"] obtain m1 tr1 where
    en1: "executeNext g (b0, []) = (Inr m1, dequeued b0, tr1)"
    and p1: "posts tr1 = [map (\<lambda>i. step_of (allRequests b0 ! i)) [0 ..< 20]]"
    and k1: "fst ` set m1 = (\<lambda>i. req_id (allRequests b0 ! i)) ` set [0 ..< 20]"
    and d1: "distinct (map fst m1)"
    by (auto simp add: q0)
  define b1 where "b1 = dequeued b0"
  have ok1: "batch_ok b1" by (simp add: b1_def dequeued_batch_ok ok0)
  have q1: "requestsQueue b1 = [20 ..< 25]" by (simp add: b1_def q0)
  have a1: "allRequests b1 = allRequests b0" by (simp add: b1_def)
  have ne1: "requestsQueue b1 \<noteq> []" using q1 by simp
  from executeNext_all_succeed [OF ok1 su ne1, of tr1] obtain m2 tr2 where
    en2: "executeNext g (b1, tr1) = (Inr m2, dequeued b1, tr2)"
    and p2: "posts tr2 = posts tr1 @ [map (\<lambda>i. step_of (allRequests b0 ! i)) [20 ..< 25]]"
    and k2: "fst ` set m2 = (\<lambda>i. req_id (allRequests b0 ! i)) ` set [20 ..< 25]"
    and d2: "distinct (map fst m2)"
    by (auto simp add: q1 a1)
  define b2 where "b2 = dequeued b1"
  have q2: "\<not> hasRequests b2" by (simp add: b2_def hasRequests_def q1)
  obtain k where nk: "n = Suc (Suc k)"
    using n by (metis Suc_le_D numeral_2_eq_2 Suc_le_mono)
  define m where "m = merge (merge [] m1) m2"
  have h0: "hasRequests b0" "hasRequests b1" by (simp_all add: hasRequests_def q0 q1)
  have run: "executeAll n g (b0, []) = Some (Inr m, b2, tr2)"
    using h0 en1 en2 q2 executeAll_loop_done [of "(b2, tr2)" k g m]
    by (simp add: executeAll_def nk b1_def [symmetric] b2_def [symmetric] m_def)
  have keys: "fst ` set m = (\<lambda>i. req_id (allRequests b0 ! i)) ` set [0 ..< 25]"
  proof -
    have "fst ` set m = fst ` set m1 \<union> fst ` set m2"
      by (simp add: m_def merge_keys)
    also have "\<dots> = (\<lambda>i. req_id (allRequests b0 ! i)) ` (set [0 ..< 20] \<union> set [20 ..< 25])"
      by (simp only: k1 k2 image_Un)
    also have "set [0 ..< 20] \<union> set [20 ..< 25] = set [0 ..< (25::nat)]"
      by auto
    finally show ?thesis .
  qed
  have e: "map ((!) (allRequests b0)) [0 ..< 25] = allRequests b0"
    using map_nth [of "allRequests b0"] l0 by simp
  have "map (\<lambda>i. req_id (allRequests b0 ! i)) [0 ..< 25]
      = map req_id (map ((!) (allRequests b0)) [0 ..< 25])"
    by (simp add: o_def)
  then have "map (\<lambda>i. req_id (allRequests b0 ! i)) [0 ..< 25] = map req_id (allRequests b0)"
    by (simp only: e)
  then have "set (map (\<lambda>i. req_id (allRequests b0 ! i)) [0 ..< 25]) = set (map req_id (allRequests b0))"
    by (rule arg_cong)
  then have "(\<lambda>i. req_id (allRequests b0 ! i)) ` set [0 ..< 25] = set (map req_id (allRequests b0))"
    by (simp only: set_map)
  with keys ids have ks: "set (map fst m) = set (map fst calls)" by simp
  have dm: "distinct (map fst m)"
    unfolding m_def by (intro distinct_merge) simp
  have "length m = card (set (map fst m))"
    using dm distinct_card [of "map fst m"] by simp
  also have "\<dots> = card (set (map fst calls))" using ks by simp
  also have "\<dots> = 25" using dis len distinct_card [of "map fst calls"] by simp
  finally have lm: "length m = 25" .
  from run p1 p2 lm ks show ?thesis
    unfolding b0_def by (intro exI [of _ m] exI [of _ b2] exI [of _ tr2]) simp
qed

lemma toString_inj:
  assumes "toString a = toString b"
  shows "a = b"
proof -
  have "Some (int a) = parseInt (toString a)" by (simp only: parseInt_toString)
  also have "\<dots> = parseInt (toString b)" by (simp only: assms)
  also have "\<dots> = Some (int b)" by (simp only: parseInt_toString)
  finally show ?thesis by simp
qed

lemma echo_all_succeed: "all_succeed echo_server"
  unfolding all_succeed_def
  by (simp add: echo_server_post list_all_iff echo_def decode_content_def o_def)

lemma calls25_facts: "length calls25 = 25 \<and> distinct (map fst calls25)"
proof -
  have m: "map fst calls25 = map toString [0 ..< 25]"
    by (simp add: calls25_def o_def)
  have "inj_on toString (set [0 ..< 25])"
    by (rule inj_onI) (rule toString_inj)
  then have "distinct (map toString [0 ..< 25])"
    by (simp only: distinct_map distinct_upt simp_thms)
  with m have "distinct (map fst calls25)" by (simp only:)
  moreover have "length calls25 = 25" by (simp add: calls25_def)
  ultimately show ?thesis by simp
qed

text \<open>
  C2. Whatever its outcome, one \<open>executeNext\<close> posts at most once, at most 20
  steps, and removes the first 20 indices (or all, when there are fewer) from the
  queue. With a non-empty queue of length \<open>n\<close> that holds requests of the batch
  it posts exactly once: the steps of the first \<open>min n 20\<close> queued requests, in
  the order of the queue, which for a batch built by \<open>get\<close> calls is the order
  in which they were added; with an empty queue it posts nothing. Twenty-five \<open>get\<close> calls with
  distinct ids, on a transport that answers every step with a status 200, make
  \<open>executeAll\<close> post exactly twice, the first 20 requests and then the last 5, and
  return a map of 25 entries, one per id.
\<close>

theorem executeNext_at_most_20:
  "(\<exists>ps. posts (snd (snd (executeNext g (b, tr)))) = posts tr @ ps
        \<and> length ps \<le> 1 \<and> (\<forall>steps \<in> set ps. length steps \<le> 20))
   \<and> (\<exists>thr. requestsQueue (fst (snd (executeNext g (b, tr)))) = thr @ drop 20 (requestsQueue b))
   \<and> (batch_ok b \<and> requestsQueue b \<noteq> []
      \<longrightarrow> posts (snd (snd (executeNext g (b, tr)))) =
            posts tr @ [map (\<lambda>i. step_of (allRequests b ! i)) (take 20 (requestsQueue b))]
          \<and> length (take 20 (requestsQueue b)) = min (length (requestsQueue b)) 20)
   \<and> (requestsQueue b = [] \<longrightarrow> posts (snd (snd (executeNext g (b, tr)))) = posts tr)
   \<and> (length calls = 25 \<and> distinct (map fst calls) \<and> all_succeed g \<and> 2 \<le> n
      \<longrightarrow> (\<exists>m b' tr'. executeAll n g (enqueue calls new_Batch, []) = Some (Inr m, b', tr')
            \<and> posts tr' =
                [map (\<lambda>i. step_of (allRequests (enqueue calls new_Batch) ! i)) [0 ..< 20],
                 map (\<lambda>i. step_of (allRequests (enqueue calls new_Batch) ! i)) [20 ..< 25]]
            \<and> length m = 25 \<and> set (map fst m) = set (map fst calls)))"
proof -
  have c: "batch_ok b \<and> requestsQueue b \<noteq> []
      \<longrightarrow> posts (snd (snd (executeNext g (b, tr)))) =
            posts tr @ [map (\<lambda>i. step_of (allRequests b ! i)) (take 20 (requestsQueue b))]
          \<and> length (take 20 (requestsQueue b)) = min (length (requestsQueue b)) 20"
    using executeNext_posts_valid [of b g tr] by simp
  have d: "requestsQueue b = [] \<longrightarrow> posts (snd (snd (executeNext g (b, tr)))) = posts tr"
    by (simp add: executeNext_unfold)
  have e: "length calls = 25 \<and> distinct (map fst calls) \<and> all_succeed g \<and> 2 \<le> n
      \<longrightarrow> (\<exists>m b' tr'. executeAll n g (enqueue calls new_Batch, []) = Some (Inr m, b', tr')
            \<and> posts tr' =
                [map (\<lambda>i. step_of (allRequests (enqueue calls new_Batch) ! i)) [0 ..< 20],
                 map (\<lambda>i. step_of (allRequests (enqueue calls new_Batch) ! i)) [20 ..< 25]]
            \<and> length m = 25 \<and> set (map fst m) = set (map fst calls))"
    using executeAll_25 [of calls g n] by blast
  from executeNext_posts_bound [of g b tr] executeNext_dequeues [of g b tr] c d e
  show ?thesis by blast
qed

text \<open>C2 on \<open>calls25\<close> and \<open>echo_server\<close>.\<close>

theorem executeNext_at_most_20_witness:
  "batch_ok (enqueue calls25 new_Batch)
   \<and> requestsQueue (enqueue calls25 new_Batch) = [0 ..< 25]
   \<and> length calls25 = 25 \<and> distinct (map fst calls25) \<and> all_succeed echo_server
   \<and> map length (posts (snd (snd (executeNext echo_server (enqueue calls25 new_Batch, []))))) = [20]
   \<and> (\<exists>m b' tr'. executeAll 2 echo_server (enqueue calls25 new_Batch, []) = Some (Inr m, b', tr')
         \<and> map length (posts tr') = [20, 5] \<and> length m = 25
         \<and> set (map fst m) = set (map fst calls25))
   \<and> posts (snd (snd (executeNext echo_server (new_Batch, [])))) = []"
proof -
  have ok: "batch_ok (enqueue calls25 new_Batch)" by (rule enqueue_batch_ok)
  have q: "requestsQueue (enqueue calls25 new_Batch) = [0 ..< 25]"
    using enqueue_new_Batch [of calls25] calls25_facts by simp
  have ne: "requestsQueue (enqueue calls25 new_Batch) \<noteq> []" using q by simp
  have e0: "requestsQueue new_Batch = []" by (simp add: new_Batch_def)
  note inst = executeNext_at_most_20 [of echo_server "enqueue calls25 new_Batch" "[]" calls25 2]
  note inst0 = executeNext_at_most_20 [of echo_server new_Batch "[]" calls25 2]
  have p1: "posts (snd (snd (executeNext echo_server (enqueue calls25 new_Batch, [])))) =
      [map (\<lambda>i. step_of (allRequests (enqueue calls25 new_Batch) ! i)) [0 ..< 20]]"
    using inst ok ne by (simp add: q)
  have p0: "posts (snd (snd (executeNext echo_server (new_Batch, [])))) = []"
    using inst0 e0 by simp
  from inst calls25_facts echo_all_succeed obtain m b' tr' where
    r: "executeAll 2 echo_server (enqueue calls25 new_Batch, []) = Some (Inr m, b', tr')"
    "posts tr' =
                [map (\<lambda>i. step_of (allRequests (enqueue calls25 new_Batch) ! i)) [0 ..< 20],
                 map (\<lambda>i. step_of (allRequests (enqueue calls25 new_Batch) ! i)) [20 ..< 25]]"
    "length m = 25" "set (map fst m) = set (map fst calls25)"
    by auto
  have "\<exists>m b' tr'. executeAll 2 echo_server (enqueue calls25 new_Batch, []) = Some (Inr m, b', tr')
         \<and> map length (posts tr') = [20, 5] \<and> length m = 25
         \<and> set (map fst m) = set (map fst calls25)"
    using r by (intro exI [of _ m] exI [of _ b'] exI [of _ tr']) simp
  with ok q calls25_facts echo_all_succeed p1 p0 show ?thesis by simp
qed

subsection \<open>\<open>myPhoto\<close> with the photo cache off\<close>

text \<open>
  C10. With the photo cache disabled, globally or for the photos category, and a
  truthy answer to the \<open>me/photo\<close> request, \<open>myPhoto\<close> returns \<open>null\<close>: the
  ETag comparison throws a TypeError that the try block catches. The only request
  made is \<open>me/photo\<close>; the photo content is never fetched, and the store is untouched.
\<close>

theorem myPhoto_cache_off_returns_null:
  "(\<not> cfg_isEnabled cfg \<or> \<not> isEnabled (photos cfg))
   \<and> api_fetch env (tr @ [Fetch ''me/photo'']) = Inr response \<and> truthy response
   \<longrightarrow> etag_changed response None = Inl TypeError
       \<and> myPhoto env cfg (cache, tr) = (JNull, cache, tr @ [Fetch ''me/photo'', Fetched response])
       \<and> Fetch ''me/photo/$value'' \<notin> set (drop (length tr) (snd (snd (myPhoto env cfg (cache, tr)))))"
  by (auto simp add: myPhoto_def getIsPhotosCacheEnabled_def Let_def etag_changed_def)

text \<open>C10 on \<open>photo_server\<close> with the cache switched off globally.\<close>

theorem myPhoto_cache_off_returns_null_witness:
  "\<not> cfg_isEnabled cache_off
   \<and> truthy (JObj [(''@odata.mediaEtag'', JStr ''W/1''), (''width'', JNum 48)])
   \<and> myPhoto photo_server cache_off (Map.empty, []) =
       (JNull, Map.empty,
        [Fetch ''me/photo'', Fetched (JObj [(''@odata.mediaEtag'', JStr ''W/1''), (''width'', JNum 48)])])"
  using myPhoto_cache_off_returns_null [of cache_off photo_server "[]"
      "JObj [(''@odata.mediaEtag'', JStr ''W/1''), (''width'', JNum 48)]" Map.empty]
  by (simp add: cache_off_def photo_server_def)

subsection \<open>A failed transport call\<close>





lemma fetches_append [simp]: "fetches (tr @ tr') = fetches tr @ fetches tr'"
  by (induction tr rule: fetches.induct) simp_all









end
